theory Spec2Isabelle
  imports Main "HOL-Library.Word"
begin

section \<open>Data model of \<^verbatim>\<open>src/calldata-guesser/guess.ts\<close>\<close>

text \<open>
  A \<^verbatim>\<open>Uint8Array\<close> is a list of 8-bit words. JavaScript numbers that the guesser
  manipulates are non-negative integers below \<open>2^53\<close> (lengths, offsets, counters), so
  they are natural numbers here; the one place where a fraction can appear
  (\<^verbatim>\<open>dynamicData.length / 32\<close>) is written out with \<open>div\<close> and \<open>mod\<close> where it is used.
\<close>

type_synonym byte = "8 word"
type_synonym bytes = "byte list"

text \<open>\<^verbatim>\<open>arr.slice(a, b)\<close> for non-negative \<open>a\<close>, \<open>b\<close>: both ends are clamped to the length,
  and the result is empty when \<open>b \<le> a\<close>.\<close>

definition slice :: "'a list \<Rightarrow> nat \<Rightarrow> nat \<Rightarrow> 'a list" where
  "slice xs a b = drop a (take b xs)"

text \<open>Exceptions that can cross a function boundary of the module.\<close>

datatype error =
    SyntaxError  \<comment> \<open>\<^verbatim>\<open>BigInt("0x")\<close>: the hexlified slice was empty\<close>
  | TypeError    \<comment> \<open>a property read on \<^verbatim>\<open>null\<close> or \<^verbatim>\<open>undefined\<close>\<close>
  | DecodeError  \<comment> \<open>the ABI coder, \<^verbatim>\<open>arrayify\<close> or a value getter threw\<close>

text \<open>\<^verbatim>\<open>BigInt(ethers.utils.hexlify(bs))\<close>: the big-endian value of the bytes. The hex string
  of an empty array is \<^verbatim>\<open>"0x"\<close>, which \<^verbatim>\<open>BigInt\<close> refuses with a SyntaxError.\<close>

definition bigEndian :: "bytes \<Rightarrow> nat" where
  "bigEndian bs = foldl (\<lambda>acc b. acc * 256 + unat b) 0 bs"

definition bigIntOfHex :: "bytes \<Rightarrow> error + nat" where
  "bigIntOfHex bs = (if bs = [] then Inl SyntaxError else Inr (bigEndian bs))"

definition MAX_SAFE_INTEGER :: nat where
  "MAX_SAFE_INTEGER = 2 ^ 53 - 1"

definition isSafeNumber :: "nat \<Rightarrow> bool" where
  "isSafeNumber val = (val < MAX_SAFE_INTEGER)"

definition tryParseOffset :: "bytes \<Rightarrow> nat \<Rightarrow> error + nat option" where
  "tryParseOffset data pos =
     (case bigIntOfHex (slice data pos (pos + 32)) of
        Inl e \<Rightarrow> Inl e
      | Inr bigOffset \<Rightarrow>
          if \<not> isSafeNumber bigOffset then Inr None
          else if bigOffset \<le> pos \<or> bigOffset \<ge> length data then Inr None
          else if bigOffset mod 32 \<noteq> 0 then Inr None
          else Inr (Some bigOffset))"

definition tryParseLength :: "bytes \<Rightarrow> nat \<Rightarrow> error + nat option" where
  "tryParseLength data offset =
     (case bigIntOfHex (slice data offset (offset + 32)) of
        Inl e \<Rightarrow> Inl e
      | Inr bigLength \<Rightarrow>
          if \<not> isSafeNumber bigLength then Inr None
          else if offset + 32 + bigLength > length data then Inr None
          else Inr (Some bigLength))"

fun countLeadingZeros :: "bytes \<Rightarrow> nat" where
  "countLeadingZeros [] = 0"
| "countLeadingZeros (b # bs) = (if b \<noteq> 0 then 0 else Suc (countLeadingZeros bs))"

definition countTrailingZeros :: "bytes \<Rightarrow> nat" where
  "countTrailingZeros arr = countLeadingZeros (rev arr)"

subsection \<open>Parameter types, placeholders, fragments\<close>

text \<open>
  The part of ethers' \<^verbatim>\<open>ParamType\<close> that the guesser builds: an elementary type carries its
  name, a tuple its components, an array (always of dynamic length here) its element type.
  \<^verbatim>\<open>ParamType.from(s)\<close> is only ever applied to strings assembled from \<^verbatim>\<open>format()\<close> of
  existing types; it is modelled by building the type that the string denotes.
\<close>

datatype ptype = Elem string | Tuple "ptype list" | Array ptype

fun joinWith :: "string \<Rightarrow> string list \<Rightarrow> string" where
  "joinWith sep [] = []"
| "joinWith sep [s] = s"
| "joinWith sep (s # t # ss) = s @ sep @ joinWith sep (t # ss)"

fun format :: "ptype \<Rightarrow> string" where
  "format (Elem s) = s"
| "format (Tuple ts) = ''('' @ joinWith '','' (map format ts) @ '')''"
| "format (Array t) = format t @ ''[]''"

fun isTuple :: "ptype \<Rightarrow> bool" where
  "isTuple (Tuple ts) = True"
| "isTuple t = False"

fun isArray :: "ptype \<Rightarrow> bool" where
  "isArray (Array t) = True"
| "isArray t = False"

text \<open>
  \<^verbatim>\<open>ParamType.from(`(${ts.map((v) => v.format()).join(',')})`)\<close>: the tuple of the types,
  except that the string \<^verbatim>\<open>"()"\<close> parses as a tuple with one component of empty type.
\<close>

definition tupleFrom :: "ptype list \<Rightarrow> ptype" where
  "tupleFrom ts = (if ts = [] then Tuple [Elem []] else Tuple ts)"

record DynamicPlaceholder =
  offset :: nat
  len :: "nat option"  \<comment> \<open>the field \<^verbatim>\<open>length\<close>; \<open>None\<close> is \<^verbatim>\<open>null\<close>\<close>

datatype DecodedParam = Resolved ptype | Dynamic DynamicPlaceholder

record DynamicOnlyParams =
  depth :: nat
  assumeLength :: bool

record FunctionFragment =
  name :: string
  inputs :: "ptype list"

text \<open>The insertion-ordered \<^verbatim>\<open>Set\<close> of JavaScript, as the list of first occurrences.\<close>

definition newSet :: "'a list \<Rightarrow> 'a list" where
  "newSet xs = foldl (\<lambda>acc x. if x \<in> set acc then acc else acc @ [x]) [] xs"

subsection \<open>Decoded values\<close>

text \<open>
  What the reference decoder hands back for the types the inferencer emits: a 32-byte
  word for \<^verbatim>\<open>bytes32\<close>, a blob for \<^verbatim>\<open>bytes\<close>, and a list of values for a tuple or an array.
\<close>

datatype val = VWord bytes | VBytes bytes | VList "val list"

type_synonym decoder = "ptype list \<Rightarrow> bytes \<Rightarrow> val list option"

text \<open>The decimal digits of a number, as string interpolation prints it.\<close>

fun show_nat :: "nat \<Rightarrow> string" where
  "show_nat n =
     (if n < 10 then [''0123456789'' ! n]
      else show_nat (n div 10) @ [''0123456789'' ! (n mod 10)])"

declare show_nat.simps [simp del]

section \<open>The type prettifier\<close>

text \<open>Evaluating a list of computations in order; the first exception aborts the rest.\<close>

fun sequenceE :: "(error + 'a) list \<Rightarrow> error + 'a list" where
  "sequenceE [] = Inr []"
| "sequenceE (Inl e # rs) = Inl e"
| "sequenceE (Inr x # rs) = (case sequenceE rs of Inl e \<Rightarrow> Inl e | Inr xs \<Rightarrow> Inr (x # xs))"

text \<open>\<^verbatim>\<open>xs[i]\<close>: \<^verbatim>\<open>undefined\<close> out of range.\<close>

definition nthOpt :: "'a list \<Rightarrow> nat \<Rightarrow> 'a option" where
  "nthOpt xs i = (if i < length xs then Some (xs ! i) else None)"

text \<open>
  The fields \<^verbatim>\<open>components\<close> and \<^verbatim>\<open>arrayChildren\<close> of a \<^verbatim>\<open>ParamType\<close>: \<^verbatim>\<open>null\<close> where the
  type has none. An array of tuples carries the components of its element tuple.
\<close>

fun componentsOf :: "ptype \<Rightarrow> ptype list option" where
  "componentsOf (Elem s) = None"
| "componentsOf (Tuple ts) = Some ts"
| "componentsOf (Array t) = componentsOf t"

fun arrayChildrenOf :: "ptype \<Rightarrow> ptype option" where
  "arrayChildrenOf (Array t) = Some t"
| "arrayChildrenOf t = None"

text \<open>
  \<^verbatim>\<open>types.find((v) => v.baseType === b) !== undefined\<close>: the scan stops at the first match, and
  reading \<^verbatim>\<open>baseType\<close> of an \<^verbatim>\<open>undefined\<close> or \<^verbatim>\<open>null\<close> entry raises.
\<close>

fun findBase :: "(ptype \<Rightarrow> bool) \<Rightarrow> ptype option list \<Rightarrow> error + bool" where
  "findBase P [] = Inr False"
| "findBase P (None # vs) = Inl TypeError"
| "findBase P (Some v # vs) = (if P v then Inr True else findBase P vs)"

text \<open>\<^verbatim>\<open>Array.from(Array(types.length).keys()).map((v) => types[v].components[i])\<close>\<close>

fun columnOf :: "ptype option list \<Rightarrow> nat \<Rightarrow> error + ptype option list" where
  "columnOf [] i = Inr []"
| "columnOf (None # vs) i = Inl TypeError"
| "columnOf (Some v # vs) i =
     (case componentsOf v of
        None \<Rightarrow> Inl TypeError
      | Some cs \<Rightarrow> (case columnOf vs i of Inl e \<Rightarrow> Inl e | Inr col \<Rightarrow> Inr (nthOpt cs i # col)))"

text \<open>\<^verbatim>\<open>types.map((v) => v.arrayChildren)\<close>\<close>

fun childrenOf :: "ptype option list \<Rightarrow> error + ptype option list" where
  "childrenOf [] = Inr []"
| "childrenOf (None # vs) = Inl TypeError"
| "childrenOf (Some v # vs) =
     (case childrenOf vs of Inl e \<Rightarrow> Inl e | Inr cs \<Rightarrow> Inr (arrayChildrenOf v # cs))"

fun tsize :: "ptype \<Rightarrow> nat" where
  "tsize (Elem s) = 1"
| "tsize (Tuple ts) = Suc (sum_list (map tsize ts))"
| "tsize (Array t) = Suc (tsize t)"

fun osize :: "ptype option \<Rightarrow> nat" where
  "osize None = 0"
| "osize (Some t) = tsize t"

lemma tsize_pos: "0 < tsize t"
  by (cases t) simp_all

lemma tsize_nth_less: "i < length ts \<Longrightarrow> tsize (ts ! i) < Suc (sum_list (map tsize ts))"
proof (induction ts arbitrary: i)
  case Nil
  then show ?case by simp
next
  case (Cons t ts)
  then show ?case by (cases i) (auto simp: less_Suc_eq_le trans_le_add2)
qed

lemma componentsOf_smaller:
  "componentsOf t = Some cs \<Longrightarrow> osize (nthOpt cs i) < tsize t"
proof (induction t)
  case (Elem s)
  then show ?case by simp
next
  case (Tuple ts)
  then show ?case by (auto simp: nthOpt_def tsize_nth_less)
next
  case (Array t)
  then show ?case by (simp add: less_Suc_eq)
qed

lemma columnOf_smaller:
  "columnOf types i = Inr col \<Longrightarrow> types \<noteq> [] \<Longrightarrow>
   sum_list (map osize col) < sum_list (map osize types)"
proof (induction types arbitrary: col)
  case Nil
  then show ?case by simp
next
  case (Cons v vs)
  show ?case
  proof (cases v)
    case None
    with Cons.prems show ?thesis by simp
  next
    case (Some t)
    with Cons.prems obtain cs col' where cs: "componentsOf t = Some cs"
      and col': "columnOf vs i = Inr col'" and col: "col = nthOpt cs i # col'"
      by (auto split: option.splits sum.splits)
    have head: "osize (nthOpt cs i) < tsize t"
      using cs by (rule componentsOf_smaller)
    show ?thesis
    proof (cases "vs = []")
      case True
      with col' col head Some show ?thesis by simp
    next
      case False
      with Cons.IH [OF col'] col head Some show ?thesis by simp
    qed
  qed
qed

lemma arrayChildrenOf_smaller: "osize (arrayChildrenOf t) < tsize t"
  by (cases t) (simp_all add: tsize_pos)

lemma childrenOf_smaller:
  "childrenOf types = Inr cs \<Longrightarrow> types \<noteq> [] \<Longrightarrow>
   sum_list (map osize cs) < sum_list (map osize types)"
proof (induction types arbitrary: cs)
  case Nil
  then show ?case by simp
next
  case (Cons v vs)
  show ?case
  proof (cases v)
    case None
    with Cons.prems show ?thesis by simp
  next
    case (Some t)
    with Cons.prems obtain cs' where cs': "childrenOf vs = Inr cs'"
      and cs: "cs = arrayChildrenOf t # cs'"
      by (auto split: sum.splits)
    show ?thesis
    proof (cases "vs = []")
      case True
      with cs' cs Some arrayChildrenOf_smaller [of t] show ?thesis by simp
    next
      case False
      with Cons.IH [OF cs'] cs Some arrayChildrenOf_smaller [of t] show ?thesis
        by simp
    qed
  qed
qed

text \<open>
  \<^verbatim>\<open>mergeTypes\<close> (lines 460-490). The entries of \<open>types\<close> are optional because a recursive call
  can be handed \<^verbatim>\<open>undefined\<close> (a tuple with too few components) or \<^verbatim>\<open>null\<close> (the
  \<^verbatim>\<open>arrayChildren\<close> of a type that is no array).
\<close>

function mergeTypes :: "ptype option list \<Rightarrow> error + ptype" where
  "mergeTypes types =
     (if types = [] then Inr (tupleFrom [])
      else
        case findBase isTuple types of
          Inl e \<Rightarrow> Inl e
        | Inr True \<Rightarrow>
            (case hd types of
               None \<Rightarrow> Inl TypeError
             | Some t0 \<Rightarrow>
                 (case componentsOf t0 of
                    None \<Rightarrow> Inl TypeError
                  | Some comps0 \<Rightarrow>
                      (case sequenceE
                              (map (\<lambda>i. case columnOf types i of
                                           Inl e \<Rightarrow> Inl e
                                         | Inr col \<Rightarrow> mergeTypes col)
                                 [0..<length comps0]) of
                         Inl e \<Rightarrow> Inl e
                       | Inr componentTypes \<Rightarrow> Inr (tupleFrom componentTypes))))
        | Inr False \<Rightarrow>
            (case findBase isArray types of
               Inl e \<Rightarrow> Inl e
             | Inr True \<Rightarrow>
                 (case childrenOf types of
                    Inl e \<Rightarrow> Inl e
                  | Inr cs \<Rightarrow>
                      (case mergeTypes cs of Inl e \<Rightarrow> Inl e | Inr t \<Rightarrow> Inr (Array t)))
             | Inr False \<Rightarrow>
                 (let formats = newSet (map (\<lambda>v. format (the v)) types) in
                  if length formats = 1 then Inr (the (hd types))
                  else if ''bytes'' \<in> set formats then Inr (Elem ''bytes'')
                  else if ''uint256'' \<in> set formats then Inr (Elem ''uint256'')
                  else Inr (Elem ''bytes32''))))"
  by pat_completeness auto
termination
  by (relation "measure (\<lambda>types. sum_list (map osize types))")
     (auto dest: columnOf_smaller childrenOf_smaller)

declare mergeTypes.simps [simp del]

text \<open>
  The refinement of a \<^verbatim>\<open>bytes32\<close> parameter from its decoded value (lines 496-509).
\<close>

definition prettyBytes32 :: "bytes \<Rightarrow> ptype" where
  "prettyBytes32 v =
     (let leadingZeros = countLeadingZeros v;
          trailingZeros = countTrailingZeros v
      in if leadingZeros \<ge> 12 \<and> leadingZeros \<le> 17 then Elem ''address''
         else if leadingZeros > 16 then Elem ''uint256''
         else if trailingZeros > 0 then Elem (''bytes'' @ show_nat (32 - trailingZeros))
         else Elem ''bytes32'')"

text \<open>
  One step of the \<^verbatim>\<open>params.map\<close> of \<^verbatim>\<open>prettyTypes\<close> (lines 493-529): the parameter and
  \<^verbatim>\<open>vals[idx]\<close>, which is \<^verbatim>\<open>undefined\<close> (\<open>None\<close>) when \<open>vals\<close> is too short. \<open>utf8\<close> tells whether
  \<^verbatim>\<open>ethers.utils.toUtf8String\<close> accepts the bytes. A value whose shape does not fit the type
  (the decoder never returns one) makes \<^verbatim>\<open>arrayify\<close> or \<^verbatim>\<open>val.map\<close> raise; for \<^verbatim>\<open>bytes\<close> the
  exception is caught and the type stays \<^verbatim>\<open>bytes\<close>.
\<close>

function prettyType :: "(bytes \<Rightarrow> bool) \<Rightarrow> ptype \<Rightarrow> val option \<Rightarrow> error + ptype" where
  "prettyType utf8 (Elem s) v =
     (if s = ''bytes32'' then
        (case v of
           Some (VWord bs) \<Rightarrow> Inr (prettyBytes32 bs)
         | Some (VBytes bs) \<Rightarrow> Inr (prettyBytes32 bs)
         | _ \<Rightarrow> Inl DecodeError)
      else if s = ''bytes'' then
        (case v of
           Some (VBytes bs) \<Rightarrow> Inr (if utf8 bs then Elem ''string'' else Elem ''bytes'')
         | Some (VWord bs) \<Rightarrow> Inr (if utf8 bs then Elem ''string'' else Elem ''bytes'')
         | _ \<Rightarrow> Inr (Elem ''bytes''))
      else Inr (Elem s))"
| "prettyType utf8 (Array t) v =
     (case v of
        Some (VList children) \<Rightarrow>
          (case sequenceE (map (\<lambda>child. prettyType utf8 t (Some child)) children) of
             Inl e \<Rightarrow> Inl e
           | Inr childrenTypes \<Rightarrow>
               (case mergeTypes (map Some childrenTypes) of
                  Inl e \<Rightarrow> Inl e
                | Inr m \<Rightarrow> Inr (Array m)))
      | _ \<Rightarrow> Inl TypeError)"
| "prettyType utf8 (Tuple ts) v =
     (case v of
        Some (VList vals) \<Rightarrow>
          (case sequenceE
                  (map (\<lambda>idx. prettyType utf8 (ts ! idx) (nthOpt vals idx)) [0..<length ts]) of
             Inl e \<Rightarrow> Inl e
           | Inr cs \<Rightarrow> Inr (tupleFrom cs))
      | _ \<Rightarrow> if ts = [] then Inr (tupleFrom []) else Inl TypeError)"
  by pat_completeness auto
termination
  by (relation "measure (\<lambda>(utf8, t, v). tsize t)") (auto simp: tsize_nth_less)

definition prettyTypes :: "(bytes \<Rightarrow> bool) \<Rightarrow> ptype list \<Rightarrow> val list \<Rightarrow> error + ptype list" where
  "prettyTypes utf8 params vals =
     sequenceE (map (\<lambda>idx. prettyType utf8 (params ! idx) (nthOpt vals idx)) [0..<length params])"

section \<open>The tuple inferencer\<close>

text \<open>
  The reference decoder is ethers' \<^verbatim>\<open>defaultAbiCoder\<close>, a library outside this module. It
  is a parameter \<open>dec\<close> of the model: \<open>dec types buf\<close> is \<open>None\<close> when
  \<^verbatim>\<open>defaultAbiCoder.decode(types, buf).map((v) => v.toString())\<close> throws, and the decoded
  values otherwise.
\<close>

definition testFragment :: "decoder \<Rightarrow> bytes \<Rightarrow> FunctionFragment option \<Rightarrow> bool" where
  "testFragment dec data fragment =
     (case fragment of None \<Rightarrow> False | Some f \<Rightarrow> dec (inputs f) data \<noteq> None)"

text \<open>\<^verbatim>\<open>collectedParams.filter((v) => !ParamType.isParamType(v))\<close>\<close>

fun placeholdersOf :: "DecodedParam list \<Rightarrow> DynamicPlaceholder list" where
  "placeholdersOf [] = []"
| "placeholdersOf (Resolved t # ps) = placeholdersOf ps"
| "placeholdersOf (Dynamic p # ps) = p # placeholdersOf ps"

text \<open>
  The counter \<^verbatim>\<open>dynamicParamIdx\<close> that the \<^verbatim>\<open>map\<close> over \<^verbatim>\<open>collectedParams\<close> advances at each
  placeholder: every parameter is paired with the value the counter has when the closure
  body uses it (\<open>j\<close> is the index the next placeholder gets).
\<close>

fun annotate :: "DecodedParam list \<Rightarrow> nat \<Rightarrow> (DecodedParam \<times> nat) list" where
  "annotate [] j = []"
| "annotate (Resolved t # ps) j = (Resolved t, j) # annotate ps j"
| "annotate (Dynamic p # ps) j = (Dynamic p, j) # annotate ps (Suc j)"

text \<open>Lines 160-164: whether placeholder \<open>j\<close> is the trailing one, and its tail bytes.\<close>

definition dynamicTail :: "bytes \<Rightarrow> DynamicPlaceholder list \<Rightarrow> nat \<Rightarrow> bool \<times> bytes" where
  "dynamicTail data dynamicParams j =
     (let isTrailingDynamicParam = (Suc j = length dynamicParams);
          dynamicDataStart =
            offset (dynamicParams ! j) + (case len (dynamicParams ! j) of None \<Rightarrow> 0 | Some k \<Rightarrow> 32);
          dynamicDataEnd =
            (if isTrailingDynamicParam then length data else offset (dynamicParams ! Suc j))
      in (isTrailingDynamicParam, slice data dynamicDataStart dynamicDataEnd))"

text \<open>The condition of lines 189-196 under which the tail is taken to be \<^verbatim>\<open>bytes\<close>.\<close>

definition bytesLike :: "nat \<Rightarrow> bool \<Rightarrow> bytes \<Rightarrow> bool" where
  "bytesLike k isTrailingDynamicParam dynamicData =
     (let lastWord = (k div 32) * 32 in
        (k = 0 \<and> length dynamicData = 0) \<or>
        (k > 0 \<and>
          ((k mod 32 = 0 \<and> (isTrailingDynamicParam \<or> k = length dynamicData)) \<or>
           countTrailingZeros (slice dynamicData lastWord (lastWord + 32)) \<ge> 32 - k mod 32)))"

text \<open>A loop that returns \<^verbatim>\<open>undefined\<close> at the first element that fails to decode.\<close>

fun collectFirst :: "(error + 'a option) list \<Rightarrow> error + 'a list option" where
  "collectFirst [] = Inr (Some [])"
| "collectFirst (Inl e # rs) = Inl e"
| "collectFirst (Inr None # rs) = Inr None"
| "collectFirst (Inr (Some x) # rs) =
     (case collectFirst rs of
        Inl e \<Rightarrow> Inl e
      | Inr None \<Rightarrow> Inr None
      | Inr (Some xs) \<Rightarrow> Inr (Some (x # xs)))"

text \<open>Lines 398 and 413: whether the mode lets the slot be a pointer with (\<open>b\<close>) or
  without (\<open>\<not> b\<close>) a length.\<close>

definition modeAllows :: "nat \<Rightarrow> DynamicOnlyParams option \<Rightarrow> bool \<Rightarrow> bool" where
  "modeAllows d dynamicOnlyParams b =
     (case dynamicOnlyParams of None \<Rightarrow> True | Some m \<Rightarrow> d = depth m \<and> assumeLength m = b)"

text \<open>Lines 328-358: the inputs of a decoded tail, chunked into \<open>k\<close> elements when the
  placeholder has a length. In JavaScript \<^verbatim>\<open>n % 0\<close> is \<^verbatim>\<open>NaN\<close>, which differs from 0.\<close>

definition chunkInputs :: "nat option \<Rightarrow> ptype list \<Rightarrow> ptype option" where
  "chunkInputs maybeDynamicElementLen inputs0 =
     (case maybeDynamicElementLen of
        None \<Rightarrow> Some (tupleFrom inputs0)
      | Some k \<Rightarrow>
          if k = 0 \<or> length inputs0 mod k \<noteq> 0 then None
          else
            let numPerElement = length inputs0 div k;
                chunks = map (\<lambda>i. slice inputs0 (i * numPerElement) ((i + 1) * numPerElement)) [0..<k]
            in if length (newSet (map (\<lambda>v. joinWith '','' (map format v)) chunks)) \<noteq> 1 then None
               else
                 let result = hd chunks
                 in if length result = 1 then
                      (if hd result = Elem ''bytes'' then Some (hd result)
                       else Some (Array (hd result)))
                    else Some (Array (tupleFrom result)))"

text \<open>
  The recursion of the inferencer ends because every tail is shorter than the buffer it is
  cut from: a placeholder that the search adds has an offset beyond the slot it was read
  from. \<open>slack\<close> covers the accumulators that no search builds (a placeholder at offset 0,
  or one over an empty buffer), for which the first tail may be the whole buffer.
\<close>

definition slack :: "bytes \<Rightarrow> DecodedParam list \<Rightarrow> nat" where
  "slack data collectedParams =
     (if placeholdersOf collectedParams = [] \<or>
         (data \<noteq> [] \<and> (\<forall>p \<in> set (placeholdersOf collectedParams). 1 \<le> offset p))
      then 0 else 1)"

lemma placeholdersOf_append:
  "placeholdersOf (cs @ ds) = placeholdersOf cs @ placeholdersOf ds"
  by (induction cs rule: placeholdersOf.induct) simp_all

lemma tryParseOffset_Some:
  "tryParseOffset data pos = Inr (Some off) \<Longrightarrow> pos < off \<and> off < length data \<and> off mod 32 = 0"
  by (auto simp: tryParseOffset_def split: sum.splits if_splits)

lemma slack_snoc_Resolved: "slack data (cs @ [Resolved t]) = slack data cs"
  by (simp add: slack_def placeholdersOf_append)

lemma slack_snoc_Dynamic:
  "pos < off \<Longrightarrow> off < length data \<Longrightarrow>
   slack data (cs @ [Dynamic \<lparr>offset = off, len = l\<rparr>]) \<le> slack data cs"
  by (auto simp: slack_def placeholdersOf_append)

lemma annotate_index:
  "(Dynamic x, j) \<in> set (annotate cs n) \<Longrightarrow> n \<le> j \<and> j - n < length (placeholdersOf cs)"
proof (induction cs n rule: annotate.induct)
  case (1 j)
  then show ?case by simp
next
  case (2 t ps j)
  then show ?case by auto
next
  case (3 p ps n)
  then show ?case by (auto simp: Suc_diff_le)
qed

lemma length_slice_le: "length (slice xs a b) \<le> length xs - a"
  by (simp add: slice_def)

lemma tail_measure:
  assumes "(Dynamic x, j) \<in> set (annotate cs 0)"
  shows "2 * length (snd (dynamicTail data (placeholdersOf cs) j)) + 1
         < 2 * (length data + slack data cs)"
proof -
  let ?dps = "placeholdersOf cs"
  let ?dd = "snd (dynamicTail data ?dps j)"
  from assms have j: "j < length ?dps"
    using annotate_index [of x j cs 0] by simp
  then have mem: "?dps ! j \<in> set ?dps" by simp
  let ?start = "offset (?dps ! j) + (case len (?dps ! j) of None \<Rightarrow> 0 | Some k \<Rightarrow> 32)"
  have dd: "length ?dd \<le> length data - ?start"
    by (auto simp: dynamicTail_def Let_def length_slice_le)
  show ?thesis
  proof (cases "slack data cs = 0")
    case True
    with j have "data \<noteq> []" and "\<forall>p \<in> set ?dps. 1 \<le> offset p"
      by (auto simp: slack_def split: if_splits)
    with mem have "1 \<le> ?start" and "0 < length data" by auto
    with dd have "length ?dd < length data" by linarith
    then show ?thesis by simp
  next
    case False
    then have "slack data cs = 1" by (simp add: slack_def split: if_splits)
    with dd show ?thesis by simp
  qed
qed

lemma lex_step:
  "a' \<le> a \<Longrightarrow> b' < b \<Longrightarrow> ((a', b'), (a :: nat, b :: nat)) \<in> less_than <*lex*> less_than"
  by auto

lemma lex_first:
  "a' < a \<Longrightarrow> ((a', b'), (a :: nat, b :: nat)) \<in> less_than <*lex*> less_than"
  by simp

text \<open>
  \<^verbatim>\<open>decodeWellFormedTuple\<close> (lines 112-446) and the body of the closure it maps over
  \<^verbatim>\<open>collectedParams\<close> (\<open>resolveDynamic\<close>, lines 166-358, for the placeholder
  \<^verbatim>\<open>dynamicParams[dynamicParamIdx]\<close> and its tail). The result is \<open>Inl\<close> when an exception
  escapes, \<open>Inr None\<close> for \<^verbatim>\<open>null\<close> (\<^verbatim>\<open>undefined\<close> in the closure).

  In the closure, \<^verbatim>\<open>dynamicData.length / 32 > k\<close> is \<open>32 * k < length dynamicData\<close>, and
  \<^verbatim>\<open>(dynamicData.length / 32) % k !== 0\<close> holds unless \<open>32 * k\<close> divides the length (the
  quotient by 32 is exact in floating point, a fractional quotient has a fractional
  remainder). \<^verbatim>\<open>ParamType.from(`${Array.from(allResults)[0]}[]`)\<close> is the array of the first
  formatted type, which is the type of the first input.
\<close>

function (sequential) decodeWellFormedTuple ::
    "decoder \<Rightarrow> nat \<Rightarrow> bytes \<Rightarrow> nat \<Rightarrow> DecodedParam list \<Rightarrow> nat \<Rightarrow> DynamicOnlyParams option
       \<Rightarrow> error + FunctionFragment option"
  and resolveDynamic ::
    "decoder \<Rightarrow> nat \<Rightarrow> DynamicPlaceholder \<Rightarrow> bool \<Rightarrow> bytes \<Rightarrow> error + ptype option"
where
  "decodeWellFormedTuple dec d data paramIdx collectedParams endOfStaticCalldata dynamicOnlyParams =
     (let paramOffset = paramIdx * 32 in
      if paramOffset \<ge> endOfStaticCalldata then
        (let dynamicParams = placeholdersOf collectedParams in
         case sequenceE
                (map (\<lambda>(param, j).
                        case param of
                          Resolved t \<Rightarrow> Inr (Some t)
                        | Dynamic x \<Rightarrow>
                            (case dynamicTail data dynamicParams j of
                               (isTrailingDynamicParam, dynamicData) \<Rightarrow>
                                 resolveDynamic dec d (dynamicParams ! j)
                                   isTrailingDynamicParam dynamicData))
                   (annotate collectedParams 0)) of
           Inl e \<Rightarrow> Inl e
         | Inr finalParams \<Rightarrow>
             if None \<in> set finalParams then Inr None
             else
               let fragment = \<lparr>name = ''guessed'', inputs = map the finalParams\<rparr>
               in if testFragment dec data (Some fragment) then Inr (Some fragment)
                  else Inr None)
      else
        case tryParseOffset data paramOffset of
          Inl e \<Rightarrow> Inl e
        | Inr maybeOffset \<Rightarrow>
            (case (case maybeOffset of
                     None \<Rightarrow> Inr None
                   | Some off \<Rightarrow>
                       (case tryParseLength data off of
                          Inl e \<Rightarrow> Inl e
                        | Inr maybeLength \<Rightarrow>
                            (case (if maybeLength \<noteq> None \<and> modeAllows d dynamicOnlyParams True
                                   then decodeWellFormedTuple dec d data (paramIdx + 1)
                                          (collectedParams @ [Dynamic \<lparr>offset = off, len = maybeLength\<rparr>])
                                          (min endOfStaticCalldata off) dynamicOnlyParams
                                   else Inr None) of
                               Inl e \<Rightarrow> Inl e
                             | Inr withLength \<Rightarrow>
                                 if testFragment dec data withLength then Inr withLength
                                 else
                                   (case (if modeAllows d dynamicOnlyParams False
                                          then decodeWellFormedTuple dec d data (paramIdx + 1)
                                                 (collectedParams @ [Dynamic \<lparr>offset = off, len = None\<rparr>])
                                                 (min endOfStaticCalldata off) dynamicOnlyParams
                                          else Inr None) of
                                      Inl e \<Rightarrow> Inl e
                                    | Inr withoutLength \<Rightarrow>
                                        if testFragment dec data withoutLength then Inr withoutLength
                                        else Inr None)))) of
               Inl e \<Rightarrow> Inl e
             | Inr (Some fragment) \<Rightarrow> Inr (Some fragment)
             | Inr None \<Rightarrow>
                 if dynamicOnlyParams \<noteq> None \<and> d = depth (the dynamicOnlyParams) then Inr None
                 else
                   (case decodeWellFormedTuple dec d data (paramIdx + 1)
                           (collectedParams @ [Resolved (Elem ''bytes32'')])
                           endOfStaticCalldata dynamicOnlyParams of
                      Inl e \<Rightarrow> Inl e
                    | Inr fragment \<Rightarrow>
                        if testFragment dec data fragment then Inr fragment else Inr None)))"
| "resolveDynamic dec d p isTrailingDynamicParam dynamicData =
     (let maybeDynamicElementLen = len p;
          k = (case maybeDynamicElementLen of None \<Rightarrow> 0 | Some n \<Rightarrow> n)
      in
      if maybeDynamicElementLen \<noteq> None \<and> bytesLike k isTrailingDynamicParam dynamicData
      then Inr (Some (Elem ''bytes''))
      else if maybeDynamicElementLen \<noteq> None \<and> length dynamicData > 32 * k then
        (case sequenceE (map (\<lambda>paramIdx. tryParseOffset dynamicData (paramIdx * 32)) [0..<k]) of
           Inl e \<Rightarrow> Inl e
         | Inr potentialOffsets \<Rightarrow>
             if None \<notin> set potentialOffsets then
               (case decodeWellFormedTuple dec (d + 1) dynamicData 0 [] (length dynamicData)
                       (Some \<lparr>depth = d + 1, assumeLength = True\<rparr>) of
                  Inl e \<Rightarrow> Inl e
                | Inr decodedAssumingLength \<Rightarrow>
                    (case decodeWellFormedTuple dec (d + 1) dynamicData 0 [] (length dynamicData)
                            (Some \<lparr>depth = d + 1, assumeLength = False\<rparr>) of
                       Inl e \<Rightarrow> Inl e
                     | Inr decodedAssumingNoLength \<Rightarrow>
                         (case (case decodedAssumingLength of
                                  Some f \<Rightarrow> Some f
                                | None \<Rightarrow> decodedAssumingNoLength) of
                            None \<Rightarrow> Inr None
                          | Some decodedToUse \<Rightarrow>
                              if length (inputs decodedToUse) \<noteq> k then Inr None
                              else if length (newSet (map format (inputs decodedToUse))) \<noteq> 1
                              then Inr None
                              else Inr (Some (Array (hd (inputs decodedToUse)))))))
             else if \<not> (32 * k) dvd length dynamicData \<and> \<not> isTrailingDynamicParam then Inr None
             else
               (let dynamicData' =
                      (if \<not> (32 * k) dvd length dynamicData
                       then slice dynamicData 0 (length dynamicData div 32 div k * k * 32)
                       else dynamicData);
                    elemSizeWords = length dynamicData' div 32 div k
                in case collectFirst
                          (map (\<lambda>elemIdx.
                                  decodeWellFormedTuple dec (d + 1)
                                    (slice dynamicData' (elemIdx * elemSizeWords * 32)
                                       ((elemIdx + 1) * elemSizeWords * 32))
                                    0 [] (elemSizeWords * 32) None)
                             [0..<k]) of
                     Inl e \<Rightarrow> Inl e
                   | Inr None \<Rightarrow> Inr None
                   | Inr (Some fragments) \<Rightarrow>
                       if length (newSet (map (\<lambda>f. ''('' @ joinWith '','' (map format (inputs f)) @ '')'')
                                            fragments)) > 1
                       then Inr None
                       else Inr (Some (Array (tupleFrom (inputs (hd fragments)))))))
      else
        (case decodeWellFormedTuple dec (d + 1) dynamicData 0 [] (length dynamicData) None of
           Inl e \<Rightarrow> Inl e
         | Inr None \<Rightarrow> Inr None
         | Inr (Some fragment) \<Rightarrow> Inr (chunkInputs maybeDynamicElementLen (inputs fragment))))"
  by pat_completeness auto

termination
  apply (relation "inv_image (less_than <*lex*> less_than)
     (\<lambda>x. case x of
        Inl (dec, d, data, paramIdx, collectedParams, endOfStaticCalldata, dynamicOnlyParams) \<Rightarrow>
          (2 * (length data + slack data collectedParams), endOfStaticCalldata - paramIdx * 32)
      | Inr (dec, d, p, isTrailingDynamicParam, dynamicData) \<Rightarrow> (2 * length dynamicData + 1, 0))")
  subgoal by (intro wf_inv_image wf_lex_prod wf_less_than)
  subgoal premises prems for dec d data paramIdx collectedParams endOfStaticCalldata dynamicOnlyParams x xa xb xc y x2 xd ya
  proof -
    from prems have mem: "(Dynamic x2, y) \<in> set (annotate collectedParams 0)" by simp
    from prems have ya: "ya = snd (dynamicTail data (placeholdersOf collectedParams) y)"
      by (metis snd_conv)
    from tail_measure [OF mem, of data] ya show ?thesis
      by (simp add: prems(3) lex_first)
  qed
  subgoal premises prems for dec d data paramIdx collectedParams endOfStaticCalldata dynamicOnlyParams x b x2 ba
  proof -
    from prems have off: "tryParseOffset data (paramIdx * 32) = Inr (Some x2)" by simp
    from prems have lt: "paramIdx * 32 < endOfStaticCalldata" by simp
    have "slack data (collectedParams @ [Dynamic \<lparr>offset = x2, len = ba\<rparr>]) \<le> slack data collectedParams"
      using tryParseOffset_Some [OF off] slack_snoc_Dynamic by blast
    with lt show ?thesis by (auto simp: min_def)
  qed
  subgoal premises prems for dec d data paramIdx collectedParams endOfStaticCalldata dynamicOnlyParams x b x2 ba bb
  proof -
    from prems have off: "tryParseOffset data (paramIdx * 32) = Inr (Some x2)" by simp
    from prems have lt: "paramIdx * 32 < endOfStaticCalldata" by simp
    have "slack data (collectedParams @ [Dynamic \<lparr>offset = x2, len = None\<rparr>]) \<le> slack data collectedParams"
      using tryParseOffset_Some [OF off] slack_snoc_Dynamic by blast
    with lt show ?thesis by (auto simp: min_def)
  qed
  subgoal premises prems for dec d data paramIdx collectedParams endOfStaticCalldata dynamicOnlyParams x
  proof -
    from prems have lt: "paramIdx * 32 < endOfStaticCalldata" by simp
    then show ?thesis by (auto simp: slack_snoc_Resolved)
  qed
  subgoal by (simp add: slack_def)
  subgoal by (simp add: slack_def)
  subgoal premises prems for dec d p isTrailingDynamicParam dynamicData x xa xb xc xd xe
  proof -
    have "length xc \<le> length dynamicData"
      unfolding prems(8) by (simp add: slice_def)
    then have "length (slice xc (xe * xd * 32) ((xe + 1) * xd * 32)) \<le> length dynamicData"
      using length_slice_le [of xc "xe * xd * 32" "(xe + 1) * xd * 32"] by linarith
    then show ?thesis
      by (simp add: slack_def lex_first le_imp_less_Suc)
  qed
  subgoal by (simp add: slack_def)
  done

declare decodeWellFormedTuple.simps [simp del]
declare resolveDynamic.simps [simp del]


section \<open>The driver\<close>

text \<open>\<^verbatim>\<open>ethers.utils.hexlify(sig).substring(2)\<close>\<close>

definition hexDigit :: "nat \<Rightarrow> char" where
  "hexDigit n = ''0123456789abcdef'' ! n"

definition hexOf :: "bytes \<Rightarrow> string" where
  "hexOf bs = concat (map (\<lambda>b. [hexDigit (unat b div 16), hexDigit (unat b mod 16)]) bs)"

text \<open>
  \<^verbatim>\<open>wellFormedParse\<close> (lines 453-540). The second call of the decoder is outside any
  \<^verbatim>\<open>try\<close>, so its failure would be an exception.
\<close>

definition wellFormedParse ::
    "decoder \<Rightarrow> (bytes \<Rightarrow> bool) \<Rightarrow> bytes \<Rightarrow> bytes \<Rightarrow> error + FunctionFragment option" where
  "wellFormedParse dec utf8 sig bs =
     (case decodeWellFormedTuple dec 0 bs 0 [] (length bs) None of
        Inl e \<Rightarrow> Inl e
      | Inr None \<Rightarrow> Inr None
      | Inr (Some fragment) \<Rightarrow>
          (case dec (inputs fragment) bs of
             None \<Rightarrow> Inl DecodeError
           | Some vals \<Rightarrow>
               (case prettyTypes utf8 (inputs fragment) vals of
                  Inl e \<Rightarrow> Inl e
                | Inr ts \<Rightarrow> Inr (Some \<lparr>name = ''guessed_'' @ hexOf sig, inputs = ts\<rparr>))))"

definition guessFragment ::
    "decoder \<Rightarrow> (bytes \<Rightarrow> bool) \<Rightarrow> bytes \<Rightarrow> error + FunctionFragment option" where
  "guessFragment dec utf8 calldata =
     (if length calldata = 0 then Inr None
      else wellFormedParse dec utf8 (slice calldata 0 4) (slice calldata 4 (length calldata)))"

section \<open>A model of the reference decoder\<close>

text \<open>
  Modelled from the spec: the reference ABI decoder of section 6 (ethers'
  \<^verbatim>\<open>defaultAbiCoder.decode\<close>, a library that is not among the sources), for the types the
  inferencer emits. It follows the contract ABI: the head of a tuple holds one word per
  dynamic component (an offset from the start of the tuple) and the static components
  inline; \<^verbatim>\<open>bytes\<close> is a length word and the bytes, padded to whole words; an array is a count
  word and the tuple of its elements. A read past the end of the buffer, a length or count
  that the buffer cannot hold, or a word that is no safe number is an error (\<open>None\<close>).
\<close>

fun isDynamicType :: "ptype \<Rightarrow> bool" where
  "isDynamicType (Elem s) = (s = ''bytes'' \<or> s = ''string'')"
| "isDynamicType (Tuple ts) = list_ex isDynamicType ts"
| "isDynamicType (Array t) = True"

fun staticSize :: "ptype \<Rightarrow> nat" where
  "staticSize (Elem s) = 32"
| "staticSize (Tuple ts) = sum_list (map staticSize ts)"
| "staticSize (Array t) = 32"

definition headSize :: "ptype \<Rightarrow> nat" where
  "headSize t = (if isDynamicType t then 32 else staticSize t)"

definition headPos :: "ptype list \<Rightarrow> nat \<Rightarrow> nat" where
  "headPos ts i = sum_list (map headSize (take i ts))"

definition readValue :: "bytes \<Rightarrow> nat \<Rightarrow> nat option" where
  "readValue r pos =
     (if pos + 32 \<le> length r
      then (let n = bigEndian (slice r pos (pos + 32)) in if isSafeNumber n then Some n else None)
      else None)"

fun sequenceO :: "'a option list \<Rightarrow> 'a list option" where
  "sequenceO [] = Some []"
| "sequenceO (None # rs) = None"
| "sequenceO (Some x # rs) = (case sequenceO rs of None \<Rightarrow> None | Some xs \<Rightarrow> Some (x # xs))"

function decodeVal :: "ptype \<Rightarrow> bytes \<Rightarrow> val option" where
  "decodeVal (Elem s) r =
     (if s = ''bytes'' \<or> s = ''string'' then
        (case readValue r 0 of
           None \<Rightarrow> None
         | Some n \<Rightarrow>
             if 32 + ((n + 31) div 32) * 32 \<le> length r then Some (VBytes (slice r 32 (32 + n)))
             else None)
      else if s = ''bytes32'' \<or> s = ''uint256'' then
        (if 32 \<le> length r then Some (VWord (take 32 r)) else None)
      else None)"
| "decodeVal (Array t) r =
     (case readValue r 0 of
        None \<Rightarrow> None
      | Some count \<Rightarrow>
          if count * 32 > length r then None
          else
            (let base = drop 32 r in
             map_option VList
               (sequenceO
                  (map (\<lambda>i. if isDynamicType t
                             then (case readValue base (i * 32) of
                                     None \<Rightarrow> None
                                   | Some off \<Rightarrow> decodeVal t (drop off base))
                             else decodeVal t (drop (i * staticSize t) base))
                     [0..<count]))))"
| "decodeVal (Tuple ts) r =
     map_option VList
       (sequenceO
          (map (\<lambda>i. if isDynamicType (ts ! i)
                     then (case readValue r (headPos ts i) of
                             None \<Rightarrow> None
                           | Some off \<Rightarrow> decodeVal (ts ! i) (drop off r))
                     else decodeVal (ts ! i) (drop (headPos ts i) r))
             [0..<length ts]))"
  by pat_completeness auto
termination
  by (relation "measure (\<lambda>(t, r). tsize t)") (auto simp: tsize_nth_less)

definition abiDecode :: decoder where
  "abiDecode types buf = (case decodeVal (Tuple types) buf of Some (VList vs) \<Rightarrow> Some vs | _ \<Rightarrow> None)"

text \<open>A stand-in for \<^verbatim>\<open>toUtf8String\<close> succeeding, used where a concrete run needs one: every
  byte is ASCII.\<close>

definition asciiOnly :: "bytes \<Rightarrow> bool" where
  "asciiOnly bs = list_all (\<lambda>b. b < 128) bs"


section \<open>Properties of the prettifier\<close>

lemma sequenceE_map_Inr:
  "sequenceE (map f xs) = Inr ys \<Longrightarrow> length ys = length xs \<and> (\<forall>i < length xs. f (xs ! i) = Inr (ys ! i))"
proof (induction xs arbitrary: ys)
  case Nil
  then show ?case by simp
next
  case (Cons x xs)
  from Cons.prems obtain y ys' where fx: "f x = Inr y" and rest: "sequenceE (map f xs) = Inr ys'"
    and ys: "ys = y # ys'"
    by (cases "f x"; cases "sequenceE (map f xs)") auto
  from Cons.IH [OF rest] fx ys show ?case
    by (auto simp: nth_Cons split: nat.splits)
qed

lemma countLeadingZeros_takeWhile:
  "countLeadingZeros bs = length (takeWhile (\<lambda>b. b = 0) bs)"
  by (induction bs) simp_all

lemma countTrailingZeros_takeWhile:
  "countTrailingZeros bs = length (takeWhile (\<lambda>b. b = 0) (rev bs))"
  by (simp add: countTrailingZeros_def countLeadingZeros_takeWhile)

text \<open>The number of leading and of trailing zero bytes of a value, as the specification
  counts them.\<close>

definition leadingZeroBytes :: "bytes \<Rightarrow> nat" where
  "leadingZeroBytes v = length (takeWhile (\<lambda>b. b = 0) v)"

definition trailingZeroBytes :: "bytes \<Rightarrow> nat" where
  "trailingZeroBytes v = length (takeWhile (\<lambda>b. b = 0) (rev v))"

text \<open>
  Claim C6. For every parameter typed \<^verbatim>\<open>bytes32\<close> with decoded value \<open>v\<close>, the prettifier
  returns \<^verbatim>\<open>address\<close> when \<open>v\<close> has between 12 and 17 leading zero bytes, \<^verbatim>\<open>uint256\<close> when it
  has more than 16 (and is not an address), \<^verbatim>\<open>bytesN\<close> with \<open>N = 32 - trailing zeros\<close> when
  neither applies and \<open>v\<close> has a trailing zero byte, and \<^verbatim>\<open>bytes32\<close> otherwise.
\<close>

theorem prettyTypes_bytes32:
  assumes "i < length params" and "params ! i = Elem ''bytes32''"
    and "nthOpt vals i = Some (VWord v)"
    and "prettyTypes utf8 params vals = Inr ts"
  shows "ts ! i =
           (if 12 \<le> leadingZeroBytes v \<and> leadingZeroBytes v \<le> 17 then Elem ''address''
            else if 16 < leadingZeroBytes v then Elem ''uint256''
            else if 0 < trailingZeroBytes v then Elem (''bytes'' @ show_nat (32 - trailingZeroBytes v))
            else Elem ''bytes32'')"
proof -
  from assms(4) have "sequenceE (map (\<lambda>idx. prettyType utf8 (params ! idx) (nthOpt vals idx))
      [0..<length params]) = Inr ts"
    by (simp add: prettyTypes_def)
  from sequenceE_map_Inr [OF this] assms(1)
  have "prettyType utf8 (params ! i) (nthOpt vals i) = Inr (ts ! i)" by simp
  with assms(2,3) have "ts ! i = prettyBytes32 v" by simp
  then show ?thesis
    by (simp add: prettyBytes32_def Let_def leadingZeroBytes_def trailingZeroBytes_def
        countLeadingZeros_takeWhile countTrailingZeros_takeWhile)
qed

definition exampleAddressWord :: bytes where
  "exampleAddressWord = replicate 12 0 @ replicate 20 255"

definition exampleSelectorWord :: bytes where
  "exampleSelectorWord = replicate 4 171 @ replicate 28 0"

theorem prettyTypes_bytes32_witness:
  "prettyTypes (\<lambda>bs. True) [Elem ''bytes32'', Elem ''bytes32'']
     [VWord exampleAddressWord, VWord exampleSelectorWord]
   = Inr [Elem ''address'', Elem ''bytes4''] \<and>
   [Elem ''address'', Elem ''bytes4''] ! 1 = Elem (''bytes'' @ show_nat (32 - trailingZeroBytes exampleSelectorWord))"
proof -
  let ?params = "[Elem ''bytes32'', Elem ''bytes32'']"
  let ?vals = "[VWord exampleAddressWord, VWord exampleSelectorWord]"
  have run: "prettyTypes (\<lambda>bs. True) ?params ?vals = Inr [Elem ''address'', Elem ''bytes4'']"
    by code_simp
  have lz: "leadingZeroBytes exampleSelectorWord = 0"
    and tz: "trailingZeroBytes exampleSelectorWord = 28"
    by code_simp+
  have "[Elem ''address'', Elem ''bytes4''] ! 1 =
      Elem (''bytes'' @ show_nat (32 - trailingZeroBytes exampleSelectorWord))"
    using prettyTypes_bytes32 [of 1 ?params ?vals exampleSelectorWord "\<lambda>bs. True", OF _ _ _ run]
    by (simp add: nthOpt_def lz tz)
  with run show ?thesis by simp
qed



subsection \<open>Merging\<close>

text \<open>
  The types that \<^verbatim>\<open>ParamType.from\<close> returns: a tuple always has a component.
\<close>

fun parsed :: "ptype \<Rightarrow> bool" where
  "parsed (Elem s) = True"
| "parsed (Tuple ts) = (ts \<noteq> [] \<and> (\<forall>t \<in> set ts. parsed t))"
| "parsed (Array t) = parsed t"

lemma sequenceE_length: "sequenceE rs = Inr xs \<Longrightarrow> length xs = length rs"
proof (induction rs arbitrary: xs)
  case Nil
  then show ?case by simp
next
  case (Cons r rs)
  then show ?case by (cases r) (auto split: sum.splits)
qed

lemma newSet_foldl:
  "distinct acc \<Longrightarrow>
   set (foldl (\<lambda>acc x. if x \<in> set acc then acc else acc @ [x]) acc xs) = set acc \<union> set xs \<and>
   distinct (foldl (\<lambda>acc x. if x \<in> set acc then acc else acc @ [x]) acc xs)"
  by (induction xs arbitrary: acc) auto

lemma set_newSet: "set (newSet xs) = set xs"
  using newSet_foldl [of "[]" xs] by (simp add: newSet_def)

lemma distinct_newSet: "distinct (newSet xs)"
  using newSet_foldl [of "[]" xs] by (simp add: newSet_def)

lemma length_newSet: "length (newSet xs) = card (set xs)"
  using distinct_card [OF distinct_newSet, of xs] by (simp add: set_newSet)

lemma length_newSet_one:
  "length (newSet xs) = Suc 0 \<longleftrightarrow> xs \<noteq> [] \<and> (\<forall>a \<in> set xs. \<forall>b \<in> set xs. a = b)"
proof -
  have "card (set xs) = 1 \<longleftrightarrow> xs \<noteq> [] \<and> (\<forall>a \<in> set xs. \<forall>b \<in> set xs. a = b)"
  proof
    assume "card (set xs) = 1"
    then obtain x where "set xs = {x}" by (auto simp: card_1_singleton_iff)
    then show "xs \<noteq> [] \<and> (\<forall>a \<in> set xs. \<forall>b \<in> set xs. a = b)" by auto
  next
    assume *: "xs \<noteq> [] \<and> (\<forall>a \<in> set xs. \<forall>b \<in> set xs. a = b)"
    then obtain x where "x \<in> set xs" by (cases xs) auto
    with * have "set xs = {x}" by auto
    then show "card (set xs) = 1" by simp
  qed
  then show ?thesis by (simp add: length_newSet)
qed

lemma findBase_replicate:
  "findBase P (replicate (Suc n) (Some t)) = Inr (P t)"
  by (induction n) auto

lemma columnOf_replicate:
  "componentsOf t = Some cs \<Longrightarrow> columnOf (replicate n (Some t)) i = Inr (replicate n (nthOpt cs i))"
  by (induction n) auto

lemma childrenOf_replicate:
  "childrenOf (replicate n (Some t)) = Inr (replicate n (arrayChildrenOf t))"
  by (induction n) auto

lemma sequenceE_map_Inr_all: "sequenceE (map (\<lambda>x. Inr (g x)) xs) = Inr (map g xs)"
  by (induction xs) auto

lemma mergeTypes_replicate:
  "parsed t \<Longrightarrow> mergeTypes (replicate (Suc n) (Some t)) = Inr t"
proof (induction t arbitrary: n)
  case (Elem s)
  have "newSet (map (\<lambda>v. format (the v)) (replicate (Suc n) (Some (Elem s)))) = [s]"
    by (induction n) (auto simp: newSet_def)
  then show ?case
    by (simp add: mergeTypes.simps [of "replicate (Suc n) (Some (Elem s))"]
        findBase_replicate del: replicate_Suc)
next
  case (Tuple ts)
  define types where "types = replicate (Suc n) (Some (Tuple ts))"
  have col: "columnOf types i = Inr (replicate (Suc n) (nthOpt ts i))" for i
    unfolding types_def by (rule columnOf_replicate) simp
  have step: "(case columnOf types i of Inl e \<Rightarrow> Inl e | Inr col \<Rightarrow> mergeTypes col) = Inr (ts ! i)"
    if "i < length ts" for i
    using that Tuple.IH [of "ts ! i" n] Tuple.prems
    by (simp add: col nthOpt_def del: replicate_Suc)
  have eq: "map (\<lambda>i. case columnOf types i of Inl e \<Rightarrow> Inl e | Inr col \<Rightarrow> mergeTypes col)
          [0..<length ts] = map (\<lambda>i. Inr (ts ! i)) [0..<length ts]"
    by (rule map_cong) (simp_all add: step)
  have "sequenceE (map (\<lambda>i. case columnOf types i of Inl e \<Rightarrow> Inl e
          | Inr col \<Rightarrow> mergeTypes col) [0..<length ts])
        = sequenceE (map (\<lambda>i. Inr (ts ! i)) [0..<length ts])"
    by (simp only: eq)
  also have "\<dots> = Inr (map (\<lambda>i. ts ! i) [0..<length ts])"
    by (rule sequenceE_map_Inr_all)
  also have "\<dots> = Inr ts"
    by (simp add: map_nth)
  finally have seq: "sequenceE (map (\<lambda>i. case columnOf types i of Inl e \<Rightarrow> Inl e
          | Inr col \<Rightarrow> mergeTypes col) [0..<length ts]) = Inr ts" .
  have "findBase isTuple types = Inr True" and "types \<noteq> []" and "hd types = Some (Tuple ts)"
    unfolding types_def by (simp_all add: findBase_replicate del: replicate_Suc)
  moreover from Tuple.prems have "tupleFrom ts = Tuple ts"
    by (simp add: tupleFrom_def)
  ultimately have "mergeTypes types = Inr (Tuple ts)"
    by (simp add: mergeTypes.simps [of types] seq)
  then show ?case by (simp only: types_def)
next
  case (Array t)
  then show ?case
    by (simp add: mergeTypes.simps [of "replicate (Suc n) (Some (Array t))"]
        findBase_replicate childrenOf_replicate del: replicate_Suc)
qed


lemma mergeTypes_equal:
  assumes "types \<noteq> []" and "\<forall>v \<in> set types. v = Some t" and "parsed t"
  shows "mergeTypes types = Inr t"
proof -
  from assms(2) have "types = replicate (length types) (Some t)"
    by (simp add: replicate_length_same)
  moreover from assms(1) obtain n where "length types = Suc n"
    by (cases types) auto
  ultimately have "types = replicate (Suc n) (Some t)" by simp
  then show ?thesis using mergeTypes_replicate [OF assms(3), of n] by simp
qed

lemma findBase_isTuple_tuples:
  "tss \<noteq> [] \<Longrightarrow> findBase isTuple (map (\<lambda>ts. Some (Tuple ts)) tss) = Inr True"
  by (cases tss) simp_all

lemma columnOf_tuples:
  "columnOf (map (\<lambda>ts. Some (Tuple ts)) tss) i = Inr (map (\<lambda>ts. nthOpt ts i) tss)"
  by (induction tss) simp_all

lemma mergeTypes_tuples:
  assumes "tss \<noteq> []" and "\<forall>ts \<in> set tss. length ts = m" and "0 < m"
  shows "mergeTypes (map (\<lambda>ts. Some (Tuple ts)) tss) =
           (case sequenceE (map (\<lambda>i. mergeTypes (map (\<lambda>ts. Some (ts ! i)) tss)) [0..<m]) of
              Inl e \<Rightarrow> Inl e
            | Inr componentTypes \<Rightarrow> Inr (Tuple componentTypes))"
proof -
  define types where "types = map (\<lambda>ts. Some (Tuple ts)) tss"
  from assms(1) have hd: "hd types = Some (Tuple (hd tss))" and ne: "types \<noteq> []"
    by (simp_all add: types_def hd_map)
  from assms have m: "length (hd tss) = m" by (cases tss) auto
  have eq: "map (\<lambda>i. case columnOf types i of Inl e \<Rightarrow> Inl e | Inr col \<Rightarrow> mergeTypes col) [0..<m]
          = map (\<lambda>i. mergeTypes (map (\<lambda>ts. Some (ts ! i)) tss)) [0..<m]"
  proof (rule map_cong [OF refl])
    fix i assume "i \<in> set [0..<m]"
    then have "i < m" by simp
    with assms(2) have mp: "map (\<lambda>ts. nthOpt ts i) tss = map (\<lambda>ts. Some (ts ! i)) tss"
      by (intro map_cong) (auto simp: nthOpt_def)
    show "(case columnOf types i of Inl e \<Rightarrow> Inl e | Inr col \<Rightarrow> mergeTypes col)
        = mergeTypes (map (\<lambda>ts. Some (ts ! i)) tss)"
      unfolding types_def columnOf_tuples mp by simp
  qed
  have "mergeTypes types =
      (case sequenceE (map (\<lambda>i. case columnOf types i of Inl e \<Rightarrow> Inl e
              | Inr col \<Rightarrow> mergeTypes col) [0..<m]) of
         Inl e \<Rightarrow> Inl e | Inr componentTypes \<Rightarrow> Inr (tupleFrom componentTypes))"
    using findBase_isTuple_tuples [OF assms(1)] ne hd m
    by (simp add: mergeTypes.simps [of types] types_def [symmetric])
  then have step: "mergeTypes types =
      (case sequenceE (map (\<lambda>i. mergeTypes (map (\<lambda>ts. Some (ts ! i)) tss)) [0..<m]) of
         Inl e \<Rightarrow> Inl e | Inr componentTypes \<Rightarrow> Inr (tupleFrom componentTypes))"
    unfolding eq .
  show ?thesis
  proof (cases "sequenceE (map (\<lambda>i. mergeTypes (map (\<lambda>ts. Some (ts ! i)) tss)) [0..<m])")
    case (Inl e)
    with step show ?thesis by (simp add: types_def)
  next
    case (Inr cs)
    from sequenceE_length [OF Inr] assms(3) have "cs \<noteq> []" by auto
    then have "tupleFrom cs = Tuple cs" by (simp add: tupleFrom_def)
    with step Inr show ?thesis by (simp add: types_def)
  qed
qed

lemma findBase_isTuple_arrays:
  "findBase isTuple (map (\<lambda>t. Some (Array t)) ts) = Inr False"
  by (induction ts) simp_all

lemma findBase_isArray_arrays:
  "ts \<noteq> [] \<Longrightarrow> findBase isArray (map (\<lambda>t. Some (Array t)) ts) = Inr True"
  by (cases ts) simp_all

lemma childrenOf_arrays: "childrenOf (map (\<lambda>t. Some (Array t)) ts) = Inr (map Some ts)"
  by (induction ts) simp_all

lemma mergeTypes_arrays:
  assumes "ts \<noteq> []"
  shows "mergeTypes (map (\<lambda>t. Some (Array t)) ts) =
           (case mergeTypes (map Some ts) of Inl e \<Rightarrow> Inl e | Inr t \<Rightarrow> Inr (Array t))"
  using assms findBase_isTuple_arrays [of ts] findBase_isArray_arrays [of ts]
  by (simp add: mergeTypes.simps [of "map (\<lambda>t. Some (Array t)) ts"] childrenOf_arrays)

lemma findBase_scalars:
  "findBase isTuple (map (\<lambda>s. Some (Elem s)) names) = Inr False \<and>
   findBase isArray (map (\<lambda>s. Some (Elem s)) names) = Inr False"
  by (induction names) simp_all

lemma mergeTypes_scalars:
  assumes "names \<noteq> []"
  shows "mergeTypes (map (\<lambda>s. Some (Elem s)) names) =
           (if \<forall>a \<in> set names. \<forall>b \<in> set names. a = b then Inr (Elem (hd names))
            else if ''bytes'' \<in> set names then Inr (Elem ''bytes'')
            else if ''uint256'' \<in> set names then Inr (Elem ''uint256'')
            else Inr (Elem ''bytes32''))"
proof -
  have fm: "map (\<lambda>v. format (the v)) (map (\<lambda>s. Some (Elem s)) names) = names"
    by (induction names) simp_all
  show ?thesis
    using assms findBase_scalars [of names]
    by (simp add: mergeTypes.simps [of "map (\<lambda>s. Some (Elem s)) names"] o_def Let_def
        length_newSet_one set_newSet hd_map)
qed

text \<open>
  The scalar sets that reach the last branch of \<^verbatim>\<open>mergeTypes\<close>. It is called at line 519 only,
  on the refinements that \<^verbatim>\<open>prettyTypes\<close> gives the children of one array: words refined from
  \<^verbatim>\<open>bytes32\<close> (lines 496-509) or blobs refined from \<^verbatim>\<open>bytes\<close> (lines 510-516).
\<close>

definition refinedWord :: "bytes \<Rightarrow> string" where
  "refinedWord v = format (prettyBytes32 v)"

definition refinedBlob :: "(bytes \<Rightarrow> bool) \<Rightarrow> bytes \<Rightarrow> string" where
  "refinedBlob utf8 b = (if utf8 b then ''string'' else ''bytes'')"

lemma show_nat_not_empty: "show_nat n \<noteq> []"
  by (simp add: show_nat.simps [of n])

lemma prettyBytes32_refinedWord: "prettyBytes32 v = Elem (refinedWord v)"
  by (simp add: refinedWord_def prettyBytes32_def Let_def)

lemma refinedWord_not_bytes: "refinedWord v \<noteq> ''bytes''"
  by (simp add: refinedWord_def prettyBytes32_def Let_def show_nat_not_empty)

lemma mergeTypes_words:
  assumes "ws \<noteq> []"
  shows "mergeTypes (map (\<lambda>v. Some (prettyBytes32 v)) ws) =
           (if \<forall>a \<in> set ws. \<forall>b \<in> set ws. refinedWord a = refinedWord b
            then Inr (prettyBytes32 (hd ws))
            else if \<exists>v \<in> set ws. refinedWord v = ''uint256'' then Inr (Elem ''uint256'')
            else Inr (Elem ''bytes32''))"
proof -
  have m: "map (\<lambda>v. Some (prettyBytes32 v)) ws = map (\<lambda>s. Some (Elem s)) (map refinedWord ws)"
    by (simp add: prettyBytes32_refinedWord)
  have nb: "''bytes'' \<notin> set (map refinedWord ws)"
  proof
    assume "''bytes'' \<in> set (map refinedWord ws)"
    then obtain v where "refinedWord v = ''bytes''" by auto
    with refinedWord_not_bytes [of v] show False by simp
  qed
  have u: "''uint256'' \<in> set (map refinedWord ws) \<longleftrightarrow> (\<exists>v \<in> set ws. refinedWord v = ''uint256'')"
    unfolding set_map image_iff by metis
  have e: "(\<forall>a \<in> set (map refinedWord ws). \<forall>b \<in> set (map refinedWord ws). a = b)
       \<longleftrightarrow> (\<forall>a \<in> set ws. \<forall>b \<in> set ws. refinedWord a = refinedWord b)"
    unfolding set_map by blast
  from assms have ne: "map refinedWord ws \<noteq> []" by simp
  from assms have h: "Elem (hd (map refinedWord ws)) = prettyBytes32 (hd ws)"
    by (simp add: hd_map prettyBytes32_refinedWord)
  show ?thesis
    unfolding m mergeTypes_scalars [OF ne] if_not_P [OF nb] u e h ..
qed

lemma mergeTypes_blobs:
  assumes "bs \<noteq> []"
  shows "mergeTypes (map (\<lambda>b. Some (Elem (refinedBlob utf8 b))) bs) =
           (if \<forall>b \<in> set bs. utf8 b then Inr (Elem ''string'') else Inr (Elem ''bytes''))"
proof -
  define names where "names = map (refinedBlob utf8) bs"
  have m: "map (\<lambda>b. Some (Elem (refinedBlob utf8 b))) bs = map (\<lambda>s. Some (Elem s)) names"
    by (simp add: names_def)
  from assms have ne: "names \<noteq> []" by (simp add: names_def)
  then have hd: "hd names \<in> set names" by simp
  note scalars = mergeTypes_scalars [OF ne]
  show ?thesis
  proof (cases "\<forall>b \<in> set bs. utf8 b")
    case True
    then have all: "\<forall>a \<in> set names. a = ''string''"
      by (simp add: names_def refinedBlob_def)
    with hd have h: "hd names = ''string''" by blast
    from all have eq: "\<forall>a \<in> set names. \<forall>b \<in> set names. a = b" by metis
    have "mergeTypes (map (\<lambda>s. Some (Elem s)) names) = Inr (Elem ''string'')"
      by (simp only: scalars if_P [OF eq] h)
    then show ?thesis by (simp only: m if_P [OF True])
  next
    case False
    then obtain b where "b \<in> set bs" and "\<not> utf8 b" by blast
    then have "refinedBlob utf8 b \<in> set names" and "refinedBlob utf8 b = ''bytes''"
      by (simp_all add: names_def refinedBlob_def)
    then have mem: "''bytes'' \<in> set names" by simp
    have "mergeTypes (map (\<lambda>s. Some (Elem s)) names) = Inr (Elem ''bytes'')"
    proof (cases "\<forall>a \<in> set names. \<forall>b \<in> set names. a = b")
      case True
      with hd mem have "hd names = ''bytes''" by blast
      then show ?thesis by (simp only: scalars if_P [OF True])
    next
      case False
      show ?thesis by (simp only: scalars if_not_P [OF False] if_P [OF mem])
    qed
    then show ?thesis by (simp only: m if_not_P [OF False])
  qed
qed

text \<open>
  Claim C7, as the code has it. A non-empty collection of equal types merges to that type;
  tuples of one arity merge component by component; arrays merge on their element types;
  and when scalar formatted types disagree, a collection that holds \<^verbatim>\<open>bytes\<close> merges to
  \<^verbatim>\<open>bytes\<close>, whatever it disagrees with, otherwise one that holds \<^verbatim>\<open>uint256\<close> merges to
  \<^verbatim>\<open>uint256\<close>, and any other disagreement merges to \<^verbatim>\<open>bytes32\<close>.
\<close>

theorem mergeTypes_rules:
  "(types \<noteq> [] \<and> parsed t \<and> (\<forall>v \<in> set types. v = Some t) \<longrightarrow> mergeTypes types = Inr t) \<and>
   (tss \<noteq> [] \<and> 0 < m \<and> (\<forall>ts \<in> set tss. length ts = m) \<longrightarrow>
      mergeTypes (map (\<lambda>ts. Some (Tuple ts)) tss) =
        (case sequenceE (map (\<lambda>i. mergeTypes (map (\<lambda>ts. Some (ts ! i)) tss)) [0..<m]) of
           Inl e \<Rightarrow> Inl e
         | Inr componentTypes \<Rightarrow> Inr (Tuple componentTypes))) \<and>
   (es \<noteq> [] \<longrightarrow>
      mergeTypes (map (\<lambda>t. Some (Array t)) es) =
        (case mergeTypes (map Some es) of Inl e \<Rightarrow> Inl e | Inr t \<Rightarrow> Inr (Array t))) \<and>
   (names \<noteq> [] \<and> (\<exists>a \<in> set names. \<exists>b \<in> set names. a \<noteq> b) \<longrightarrow>
      mergeTypes (map (\<lambda>s. Some (Elem s)) names) =
        (if ''bytes'' \<in> set names then Inr (Elem ''bytes'')
         else if ''uint256'' \<in> set names then Inr (Elem ''uint256'')
         else Inr (Elem ''bytes32'')))"
proof (intro conjI impI)
  assume "types \<noteq> [] \<and> parsed t \<and> (\<forall>v \<in> set types. v = Some t)"
  then show "mergeTypes types = Inr t" by (simp add: mergeTypes_equal)
next
  assume "tss \<noteq> [] \<and> 0 < m \<and> (\<forall>ts \<in> set tss. length ts = m)"
  then show "mergeTypes (map (\<lambda>ts. Some (Tuple ts)) tss) =
        (case sequenceE (map (\<lambda>i. mergeTypes (map (\<lambda>ts. Some (ts ! i)) tss)) [0..<m]) of
           Inl e \<Rightarrow> Inl e
         | Inr componentTypes \<Rightarrow> Inr (Tuple componentTypes))"
    using mergeTypes_tuples [of tss m] by blast
next
  assume "es \<noteq> []"
  then show "mergeTypes (map (\<lambda>t. Some (Array t)) es) =
        (case mergeTypes (map Some es) of Inl e \<Rightarrow> Inl e | Inr t \<Rightarrow> Inr (Array t))"
    by (rule mergeTypes_arrays)
next
  assume *: "names \<noteq> [] \<and> (\<exists>a \<in> set names. \<exists>b \<in> set names. a \<noteq> b)"
  then have neq: "\<not> (\<forall>a \<in> set names. \<forall>b \<in> set names. a = b)" by blast
  from * have ne: "names \<noteq> []" by simp
  show "mergeTypes (map (\<lambda>s. Some (Elem s)) names) =
        (if ''bytes'' \<in> set names then Inr (Elem ''bytes'')
         else if ''uint256'' \<in> set names then Inr (Elem ''uint256'')
         else Inr (Elem ''bytes32''))"
    by (simp only: mergeTypes_scalars [OF ne] neq if_False)
qed

theorem mergeTypes_rules_witness:
  "mergeTypes [Some (Elem ''address''), Some (Elem ''address'')] = Inr (Elem ''address'') \<and>
   mergeTypes [Some (Tuple [Elem ''address'', Elem ''string'']),
               Some (Tuple [Elem ''uint256'', Elem ''bytes''])]
     = Inr (Tuple [Elem ''uint256'', Elem ''bytes'']) \<and>
   mergeTypes [Some (Array (Elem ''bytes4'')), Some (Array (Elem ''address''))]
     = Inr (Array (Elem ''bytes32'')) \<and>
   mergeTypes [Some (Elem ''string''), Some (Elem ''bytes'')] = Inr (Elem ''bytes'')"
proof -
  have a: "mergeTypes [Some (Elem ''address''), Some (Elem ''uint256'')] = Inr (Elem ''uint256'')"
    using mergeTypes_rules [of "[]" "Elem ''address''" "[]" 0 "[]" "[''address'', ''uint256'']"] by auto
  have b: "mergeTypes [Some (Elem ''string''), Some (Elem ''bytes'')] = Inr (Elem ''bytes'')"
    using mergeTypes_rules [of "[]" "Elem ''address''" "[]" 0 "[]" "[''string'', ''bytes'']"] by auto
  have c: "mergeTypes [Some (Elem ''bytes4''), Some (Elem ''address'')] = Inr (Elem ''bytes32'')"
    using mergeTypes_rules [of "[]" "Elem ''address''" "[]" 0 "[]" "[''bytes4'', ''address'']"] by auto
  have d: "mergeTypes [Some (Elem ''address''), Some (Elem ''address'')] = Inr (Elem ''address'')"
    using mergeTypes_rules [of "[Some (Elem ''address''), Some (Elem ''address'')]" "Elem ''address''"
        "[]" 0 "[]" "[]"] by simp
  have e: "mergeTypes [Some (Tuple [Elem ''address'', Elem ''string'']),
               Some (Tuple [Elem ''uint256'', Elem ''bytes''])]
     = Inr (Tuple [Elem ''uint256'', Elem ''bytes''])"
    using mergeTypes_rules [of "[]" undefined
        "[[Elem ''address'', Elem ''string''], [Elem ''uint256'', Elem ''bytes'']]" 2 "[]" "[]"] a b
    by (simp add: upt_rec numeral_2_eq_2)
  have f: "mergeTypes [Some (Array (Elem ''bytes4'')), Some (Array (Elem ''address''))]
     = Inr (Array (Elem ''bytes32''))"
    using mergeTypes_rules [of "[]" "Elem ''address''" "[]" 0 "[Elem ''bytes4'', Elem ''address'']" "[]"] c
    by simp
  from b d e f show ?thesis by simp
qed

section \<open>The search, one slot at a time\<close>

text \<open>
  The two halves of \<^verbatim>\<open>decodeWellFormedTuple\<close>, named: what it does once the head is complete
  (\<open>finishHead\<close>, lines 146-376, with the closure body \<open>resolveParam\<close>), and the attempts it
  makes at a slot (lines 388-445).
\<close>

definition resolveParam ::
    "decoder \<Rightarrow> nat \<Rightarrow> bytes \<Rightarrow> DynamicPlaceholder list \<Rightarrow> DecodedParam \<times> nat \<Rightarrow> error + ptype option" where
  "resolveParam dec d data dynamicParams pj =
     (case pj of (param, j) \<Rightarrow>
        case param of
          Resolved t \<Rightarrow> Inr (Some t)
        | Dynamic x \<Rightarrow>
            (case dynamicTail data dynamicParams j of
               (isTrailingDynamicParam, dynamicData) \<Rightarrow>
                 resolveDynamic dec d (dynamicParams ! j) isTrailingDynamicParam dynamicData))"

definition finishHead :: "decoder \<Rightarrow> nat \<Rightarrow> bytes \<Rightarrow> DecodedParam list \<Rightarrow> error + FunctionFragment option" where
  "finishHead dec d data collectedParams =
     (case sequenceE (map (resolveParam dec d data (placeholdersOf collectedParams))
                        (annotate collectedParams 0)) of
        Inl e \<Rightarrow> Inl e
      | Inr finalParams \<Rightarrow>
          if None \<in> set finalParams then Inr None
          else if dec (map the finalParams) data \<noteq> None
               then Inr (Some \<lparr>name = ''guessed'', inputs = map the finalParams\<rparr>)
               else Inr None)"

lemma decodeWellFormedTuple_complete:
  assumes "endOfStaticCalldata \<le> paramIdx * 32"
  shows "decodeWellFormedTuple dec d data paramIdx collectedParams endOfStaticCalldata mode
         = finishHead dec d data collectedParams"
proof -
  have "(\<lambda>(param, j). case param of
            Resolved t \<Rightarrow> Inr (Some t)
          | Dynamic x \<Rightarrow>
              (case dynamicTail data (placeholdersOf collectedParams) j of
                 (isTrailingDynamicParam, dynamicData) \<Rightarrow>
                   resolveDynamic dec d (placeholdersOf collectedParams ! j)
                     isTrailingDynamicParam dynamicData))
        = resolveParam dec d data (placeholdersOf collectedParams)"
    by (rule ext) (simp add: resolveParam_def)
  with assms show ?thesis
    by (simp add: decodeWellFormedTuple.simps [of dec d data paramIdx collectedParams
          endOfStaticCalldata mode] finishHead_def testFragment_def Let_def
        split: sum.split)
qed

lemma testFragment_None [simp]: "\<not> testFragment dec data None"
  by (simp add: testFragment_def)

definition tryStatic ::
    "decoder \<Rightarrow> nat \<Rightarrow> bytes \<Rightarrow> nat \<Rightarrow> DecodedParam list \<Rightarrow> nat \<Rightarrow> DynamicOnlyParams option
       \<Rightarrow> error + FunctionFragment option" where
  "tryStatic dec d data paramIdx collectedParams endOfStaticCalldata mode =
     (if mode \<noteq> None \<and> d = depth (the mode) then Inr None
      else
        (case decodeWellFormedTuple dec d data (paramIdx + 1)
                (collectedParams @ [Resolved (Elem ''bytes32'')]) endOfStaticCalldata mode of
           Inl e \<Rightarrow> Inl e
         | Inr fragment \<Rightarrow> if testFragment dec data fragment then Inr fragment else Inr None))"

definition tryPointer ::
    "decoder \<Rightarrow> nat \<Rightarrow> bytes \<Rightarrow> nat \<Rightarrow> DecodedParam list \<Rightarrow> nat \<Rightarrow> DynamicOnlyParams option
       \<Rightarrow> nat \<Rightarrow> nat option \<Rightarrow> bool \<Rightarrow> error + FunctionFragment option" where
  "tryPointer dec d data paramIdx collectedParams endOfStaticCalldata mode off l allowed =
     (if allowed
      then decodeWellFormedTuple dec d data (paramIdx + 1)
             (collectedParams @ [Dynamic \<lparr>offset = off, len = l\<rparr>])
             (min endOfStaticCalldata off) mode
      else Inr None)"

lemma decodeWellFormedTuple_slot:
  assumes "paramIdx * 32 < endOfStaticCalldata"
  shows "decodeWellFormedTuple dec d data paramIdx collectedParams endOfStaticCalldata mode =
     (case tryParseOffset data (paramIdx * 32) of
        Inl e \<Rightarrow> Inl e
      | Inr None \<Rightarrow> tryStatic dec d data paramIdx collectedParams endOfStaticCalldata mode
      | Inr (Some off) \<Rightarrow>
          (case tryParseLength data off of
             Inl e \<Rightarrow> Inl e
           | Inr maybeLength \<Rightarrow>
               (case tryPointer dec d data paramIdx collectedParams endOfStaticCalldata mode off
                       maybeLength (maybeLength \<noteq> None \<and> modeAllows d mode True) of
                  Inl e \<Rightarrow> Inl e
                | Inr withLength \<Rightarrow>
                    if testFragment dec data withLength then Inr withLength
                    else
                      (case tryPointer dec d data paramIdx collectedParams endOfStaticCalldata
                              mode off None (modeAllows d mode False) of
                         Inl e \<Rightarrow> Inl e
                       | Inr withoutLength \<Rightarrow>
                           if testFragment dec data withoutLength then Inr withoutLength
                           else tryStatic dec d data paramIdx collectedParams
                                  endOfStaticCalldata mode))))"
proof -
  let ?static = "tryStatic dec d data paramIdx collectedParams endOfStaticCalldata mode"
  note unfold = decodeWellFormedTuple.simps [of dec d data paramIdx collectedParams
      endOfStaticCalldata mode]
  show ?thesis
  proof (cases "tryParseOffset data (paramIdx * 32)")
    case (Inl e)
    with assms show ?thesis by (simp add: unfold)
  next
    case (Inr maybeOffset)
    show ?thesis
    proof (cases maybeOffset)
      case None
      with Inr assms show ?thesis by (simp add: unfold tryStatic_def)
    next
      case (Some off)
      show ?thesis
      proof (cases "tryParseLength data off")
        case (Inl e)
        with Inr Some assms show ?thesis by (simp add: unfold)
      next
        case len: (Inr maybeLength)
        let ?A = "tryPointer dec d data paramIdx collectedParams endOfStaticCalldata mode off
            maybeLength (maybeLength \<noteq> None \<and> modeAllows d mode True)"
        let ?B = "tryPointer dec d data paramIdx collectedParams endOfStaticCalldata mode off
            None (modeAllows d mode False)"
        show ?thesis
        proof (cases ?A)
          case (Inl e)
          with assms Inr Some len show ?thesis
            by (auto simp: unfold tryPointer_def tryStatic_def Let_def split: if_splits)
        next
          case a: (Inr withLength)
          show ?thesis
          proof (cases "testFragment dec data withLength")
            case True
            then obtain f where "withLength = Some f" by (cases withLength) simp_all
            with assms True a Inr Some len show ?thesis
            by (auto simp: unfold tryPointer_def tryStatic_def Let_def split: if_splits)
          next
            case False
            show ?thesis
            proof (cases ?B)
              case (Inl e)
              with assms False a Inr Some len show ?thesis
            by (auto simp: unfold tryPointer_def tryStatic_def Let_def split: if_splits)
            next
              case b: (Inr withoutLength)
              show ?thesis
              proof (cases "testFragment dec data withoutLength")
                case True
                then obtain f where "withoutLength = Some f" by (cases withoutLength) simp_all
                with assms True False a b Inr Some len show ?thesis
            by (auto simp: unfold tryPointer_def tryStatic_def Let_def split: if_splits)
              next
                case nb: False
                with assms False a b Inr Some len show ?thesis
            by (auto simp: unfold tryPointer_def tryStatic_def Let_def split: if_splits)
              qed
            qed
          qed
        qed
      qed
    qed
  qed
qed


lemma resolveDynamic_tuple:
  assumes "len p = None"
  shows "resolveDynamic dec d p trailing t =
     (case decodeWellFormedTuple dec (d + 1) t 0 [] (length t) None of
        Inl e \<Rightarrow> Inl e
      | Inr None \<Rightarrow> Inr None
      | Inr (Some fragment) \<Rightarrow> Inr (Some (tupleFrom (inputs fragment))))"
  using assms
  by (simp add: resolveDynamic.simps [of dec d p trailing t] chunkInputs_def
      split: sum.split option.split)

lemma resolveDynamic_chunked:
  assumes "len p = Some k" and "\<not> bytesLike k trailing t" and "length t \<le> 32 * k"
  shows "resolveDynamic dec d p trailing t =
     (case decodeWellFormedTuple dec (d + 1) t 0 [] (length t) None of
        Inl e \<Rightarrow> Inl e
      | Inr None \<Rightarrow> Inr None
      | Inr (Some fragment) \<Rightarrow> Inr (chunkInputs (Some k) (inputs fragment)))"
  using assms
  by (simp add: resolveDynamic.simps [of dec d p trailing t])

lemma resolveDynamic_dynamic_elements:
  assumes "len p = Some k" and "\<not> bytesLike k trailing t" and "32 * k < length t"
    and "sequenceE (map (\<lambda>paramIdx. tryParseOffset t (paramIdx * 32)) [0..<k]) = Inr potentialOffsets"
    and "None \<notin> set potentialOffsets"
  shows "resolveDynamic dec d p trailing t =
     (case decodeWellFormedTuple dec (d + 1) t 0 [] (length t)
             (Some \<lparr>depth = d + 1, assumeLength = True\<rparr>) of
        Inl e \<Rightarrow> Inl e
      | Inr decodedAssumingLength \<Rightarrow>
          (case decodeWellFormedTuple dec (d + 1) t 0 [] (length t)
                  (Some \<lparr>depth = d + 1, assumeLength = False\<rparr>) of
             Inl e \<Rightarrow> Inl e
           | Inr decodedAssumingNoLength \<Rightarrow>
               (case (case decodedAssumingLength of
                        Some f \<Rightarrow> Some f
                      | None \<Rightarrow> decodedAssumingNoLength) of
                  None \<Rightarrow> Inr None
                | Some decodedToUse \<Rightarrow>
                    if length (inputs decodedToUse) \<noteq> k then Inr None
                    else if length (newSet (map format (inputs decodedToUse))) \<noteq> 1
                    then Inr None
                    else Inr (Some (Array (hd (inputs decodedToUse)))))))"
  using assms
  by (simp add: resolveDynamic.simps [of dec d p trailing t])

lemma resolveDynamic_static_elements:
  assumes "len p = Some k" and "\<not> bytesLike k trailing t" and "32 * k < length t"
    and "sequenceE (map (\<lambda>paramIdx. tryParseOffset t (paramIdx * 32)) [0..<k]) = Inr potentialOffsets"
    and "None \<in> set potentialOffsets"
  shows "resolveDynamic dec d p trailing t =
     (if \<not> (32 * k) dvd length t \<and> \<not> trailing then Inr None
      else
        (let dynamicData' =
               (if \<not> (32 * k) dvd length t
                then slice t 0 (length t div 32 div k * k * 32)
                else t);
             elemSizeWords = length dynamicData' div 32 div k
         in case collectFirst
                   (map (\<lambda>elemIdx.
                           decodeWellFormedTuple dec (d + 1)
                             (slice dynamicData' (elemIdx * elemSizeWords * 32)
                                ((elemIdx + 1) * elemSizeWords * 32))
                             0 [] (elemSizeWords * 32) None)
                      [0..<k]) of
              Inl e \<Rightarrow> Inl e
            | Inr None \<Rightarrow> Inr None
            | Inr (Some fragments) \<Rightarrow>
                if length (newSet (map (\<lambda>f. ''('' @ joinWith '','' (map format (inputs f)) @ '')'')
                                     fragments)) > 1
                then Inr None
                else Inr (Some (Array (tupleFrom (inputs (hd fragments)))))))"
  using assms
  by (simp add: resolveDynamic.simps [of dec d p trailing t])

lemma guessFragment_selector:
  assumes "length sel = 4"
  shows "guessFragment dec utf8 (sel @ args) = wellFormedParse dec utf8 sel args"
  using assms by (simp add: guessFragment_def slice_def)


lemma decodeWellFormedTuple_unfold:
  "decodeWellFormedTuple dec d data paramIdx collectedParams endOfStaticCalldata mode =
     (if endOfStaticCalldata \<le> paramIdx * 32 then finishHead dec d data collectedParams
      else
        (case tryParseOffset data (paramIdx * 32) of
           Inl e \<Rightarrow> Inl e
         | Inr None \<Rightarrow> tryStatic dec d data paramIdx collectedParams endOfStaticCalldata mode
         | Inr (Some off) \<Rightarrow>
             (case tryParseLength data off of
                Inl e \<Rightarrow> Inl e
              | Inr maybeLength \<Rightarrow>
                  (case tryPointer dec d data paramIdx collectedParams endOfStaticCalldata mode off
                          maybeLength (maybeLength \<noteq> None \<and> modeAllows d mode True) of
                     Inl e \<Rightarrow> Inl e
                   | Inr withLength \<Rightarrow>
                       if testFragment dec data withLength then Inr withLength
                       else
                         (case tryPointer dec d data paramIdx collectedParams endOfStaticCalldata
                                 mode off None (modeAllows d mode False) of
                            Inl e \<Rightarrow> Inl e
                          | Inr withoutLength \<Rightarrow>
                              if testFragment dec data withoutLength then Inr withoutLength
                              else tryStatic dec d data paramIdx collectedParams
                                     endOfStaticCalldata mode)))))"
proof (cases "endOfStaticCalldata \<le> paramIdx * 32")
  case True
  then show ?thesis by (simp add: decodeWellFormedTuple_complete)
next
  case False
  then have "paramIdx * 32 < endOfStaticCalldata" by simp
  from decodeWellFormedTuple_slot [OF this] False show ?thesis by simp
qed

text \<open>Concrete buffers are written word by word.\<close>

definition wordOf :: "nat \<Rightarrow> bytes" where
  "wordOf n = replicate 30 0 @ [of_nat (n div 256), of_nat (n mod 256)]"

definition padded :: "bytes \<Rightarrow> bytes" where
  "padded bs = bs @ replicate (32 - length bs) 0"

lemma replicate_numeral: "replicate (numeral k) x = x # replicate (pred_numeral k) x"
  by (simp add: numeral_eq_Suc)

lemmas eval_bytes = wordOf_def padded_def replicate_numeral slice_def bigIntOfHex_def
  bigEndian_def isSafeNumber_def MAX_SAFE_INTEGER_def

lemmas eval_decoder = abiDecode_def readValue_def headPos_def headSize_def Let_def upt_conv_Cons

lemmas eval_head = finishHead_def resolveParam_def tryPointer_def tryStatic_def modeAllows_def
  testFragment_def numeral_2_eq_2 [symmetric]

lemmas eval_tail = chunkInputs_def newSet_def slice_def numeral_2_eq_2 [symmetric]
  upt_conv_Cons

subsection \<open>What the head search keeps true\<close>

text \<open>
  The accumulator of a head search that starts from the empty accumulator: it has one entry
  for every slot read; every placeholder points to a word boundary inside the buffer, at or
  beyond the end of the head found so far and beyond the slots read; and every resolved
  entry is \<^verbatim>\<open>bytes32\<close>.
\<close>

definition headInvariant :: "bytes \<Rightarrow> nat \<Rightarrow> DecodedParam list \<Rightarrow> nat \<Rightarrow> bool" where
  "headInvariant data paramIdx collectedParams endOfStaticCalldata =
     (length collectedParams = paramIdx \<and>
      (\<forall>p \<in> set (placeholdersOf collectedParams).
         endOfStaticCalldata \<le> offset p \<and> paramIdx * 32 \<le> offset p \<and>
         offset p mod 32 = 0 \<and> offset p < length data) \<and>
      (\<forall>t. Resolved t \<in> set collectedParams \<longrightarrow> t = Elem ''bytes32''))"

lemma headInvariant_start: "headInvariant data 0 [] endOfStaticCalldata"
  by (simp add: headInvariant_def)

lemma next_word_boundary:
  assumes "x mod 32 = 0" and "i * 32 < (x :: nat)"
  shows "(i + 1) * 32 \<le> x"
proof -
  from assms(1) have "32 dvd x" by (rule mod_0_imp_dvd)
  then obtain q where x: "x = 32 * q" by (rule dvdE)
  with assms(2) have "i < q" by simp
  then have "i + 1 \<le> q" by simp
  then have "(i + 1) * 32 \<le> q * 32" by (rule mult_le_mono1)
  with x show ?thesis by (simp add: mult.commute)
qed

lemma headInvariant_pointer:
  assumes "headInvariant data paramIdx collectedParams endOfStaticCalldata"
    and "paramIdx * 32 < endOfStaticCalldata"
    and "tryParseOffset data (paramIdx * 32) = Inr (Some off)"
  shows "headInvariant data (paramIdx + 1) (collectedParams @ [Dynamic \<lparr>offset = off, len = l\<rparr>])
           (min endOfStaticCalldata off)"
proof -
  from tryParseOffset_Some [OF assms(3)]
  have off: "paramIdx * 32 < off" "off < length data" "off mod 32 = 0" by simp_all
  have new: "(paramIdx + 1) * 32 \<le> off"
    using next_word_boundary [OF off(3) off(1)] .
  have old: "(paramIdx + 1) * 32 \<le> offset p \<and> min endOfStaticCalldata off \<le> offset p \<and>
             offset p mod 32 = 0 \<and> offset p < length data"
    if "p \<in> set (placeholdersOf collectedParams)" for p
  proof -
    from assms(1) that have p: "endOfStaticCalldata \<le> offset p" "offset p mod 32 = 0"
      "offset p < length data"
      by (simp_all add: headInvariant_def)
    from p(1) assms(2) have "paramIdx * 32 < offset p" by simp
    from next_word_boundary [OF p(2) this] p show ?thesis by simp
  qed
  from assms(1) have len: "length collectedParams = paramIdx"
    and res: "\<forall>t. Resolved t \<in> set collectedParams \<longrightarrow> t = Elem ''bytes32''"
    by (simp_all add: headInvariant_def)
  show ?thesis
    unfolding headInvariant_def placeholdersOf_append
    using len res old new off by auto
qed

lemma headInvariant_static:
  assumes "headInvariant data paramIdx collectedParams endOfStaticCalldata"
    and "paramIdx * 32 < endOfStaticCalldata"
  shows "headInvariant data (paramIdx + 1) (collectedParams @ [Resolved (Elem ''bytes32'')])
           endOfStaticCalldata"
proof -
  have old: "(paramIdx + 1) * 32 \<le> offset p \<and> endOfStaticCalldata \<le> offset p \<and>
             offset p mod 32 = 0 \<and> offset p < length data"
    if "p \<in> set (placeholdersOf collectedParams)" for p
  proof -
    from assms(1) that have p: "endOfStaticCalldata \<le> offset p" "offset p mod 32 = 0"
      "offset p < length data"
      by (simp_all add: headInvariant_def)
    from p(1) assms(2) have "paramIdx * 32 < offset p" by simp
    from next_word_boundary [OF p(2) this] p show ?thesis by simp
  qed
  from assms(1) have len: "length collectedParams = paramIdx"
    and res: "\<forall>t. Resolved t \<in> set collectedParams \<longrightarrow> t = Elem ''bytes32''"
    by (simp_all add: headInvariant_def)
  show ?thesis
    unfolding headInvariant_def placeholdersOf_append
    using len res old by auto
qed

lemma tryStatic_Some:
  assumes "tryStatic dec d data paramIdx collectedParams endOfStaticCalldata mode = Inr (Some f)"
  shows "decodeWellFormedTuple dec d data (paramIdx + 1)
           (collectedParams @ [Resolved (Elem ''bytes32'')]) endOfStaticCalldata mode
           = Inr (Some f)"
  using assms by (auto simp: tryStatic_def split: if_splits sum.splits)

lemma tryPointer_Some:
  assumes "tryPointer dec d data paramIdx collectedParams endOfStaticCalldata mode off l allowed
             = Inr (Some f)"
  shows "decodeWellFormedTuple dec d data (paramIdx + 1)
           (collectedParams @ [Dynamic \<lparr>offset = off, len = l\<rparr>])
           (min endOfStaticCalldata off) mode = Inr (Some f)"
  using assms by (simp add: tryPointer_def split: if_splits)

lemma decodeWellFormedTuple_slot_result:
  assumes "paramIdx * 32 < endOfStaticCalldata"
    and "decodeWellFormedTuple dec d data paramIdx collectedParams endOfStaticCalldata mode
           = Inr (Some f)"
  shows "(\<exists>off l. tryParseOffset data (paramIdx * 32) = Inr (Some off) \<and>
            decodeWellFormedTuple dec d data (paramIdx + 1)
              (collectedParams @ [Dynamic \<lparr>offset = off, len = l\<rparr>])
              (min endOfStaticCalldata off) mode = Inr (Some f)) \<or>
         decodeWellFormedTuple dec d data (paramIdx + 1)
           (collectedParams @ [Resolved (Elem ''bytes32'')]) endOfStaticCalldata mode
           = Inr (Some f)"
proof -
  note eq = assms(2) [unfolded decodeWellFormedTuple_slot [OF assms(1)]]
  show ?thesis
  proof (cases "tryParseOffset data (paramIdx * 32)")
    case (Inl e)
    with eq show ?thesis by simp
  next
    case (Inr maybeOffset)
    show ?thesis
    proof (cases maybeOffset)
      case None
      with eq Inr have "tryStatic dec d data paramIdx collectedParams endOfStaticCalldata mode
          = Inr (Some f)" by simp
      from tryStatic_Some [OF this] show ?thesis by simp
    next
      case (Some off)
      show ?thesis
      proof (cases "tryParseLength data off")
        case (Inl e)
        with eq Inr Some show ?thesis by simp
      next
        case len: (Inr maybeLength)
        let ?A = "tryPointer dec d data paramIdx collectedParams endOfStaticCalldata mode off
            maybeLength (maybeLength \<noteq> None \<and> modeAllows d mode True)"
        let ?B = "tryPointer dec d data paramIdx collectedParams endOfStaticCalldata mode off
            None (modeAllows d mode False)"
        from eq Inr Some len
        have "?A = Inr (Some f) \<or> ?B = Inr (Some f) \<or>
              tryStatic dec d data paramIdx collectedParams endOfStaticCalldata mode = Inr (Some f)"
          by (simp split: sum.splits if_splits)
        then show ?thesis
        proof (elim disjE)
          assume "?A = Inr (Some f)"
          from tryPointer_Some [OF this] Inr Some show ?thesis by blast
        next
          assume "?B = Inr (Some f)"
          from tryPointer_Some [OF this] Inr Some show ?thesis by blast
        next
          assume "tryStatic dec d data paramIdx collectedParams endOfStaticCalldata mode
              = Inr (Some f)"
          from tryStatic_Some [OF this] show ?thesis by simp
        qed
      qed
    qed
  qed
qed

text \<open>
  A fragment that the head search returns is the one built at the end of some head, for an
  accumulator that the search has reached.
\<close>

lemma decodeWellFormedTuple_result:
  assumes "headInvariant data paramIdx collectedParams endOfStaticCalldata"
    and "decodeWellFormedTuple dec d data paramIdx collectedParams endOfStaticCalldata mode
           = Inr (Some f)"
  shows "\<exists>paramIdx' collectedParams' endOfStaticCalldata'.
           headInvariant data paramIdx' collectedParams' endOfStaticCalldata' \<and>
           finishHead dec d data collectedParams' = Inr (Some f)"
  using assms
proof (induction "endOfStaticCalldata - paramIdx * 32"
    arbitrary: paramIdx collectedParams endOfStaticCalldata rule: less_induct)
  case less
  show ?case
  proof (cases "endOfStaticCalldata \<le> paramIdx * 32")
    case True
    with less.prems show ?thesis
      by (auto simp: decodeWellFormedTuple_complete)
  next
    case False
    then have lt: "paramIdx * 32 < endOfStaticCalldata" by simp
    from decodeWellFormedTuple_slot_result [OF lt less.prems(2)]
    show ?thesis
    proof
      assume "\<exists>off l. tryParseOffset data (paramIdx * 32) = Inr (Some off) \<and>
            decodeWellFormedTuple dec d data (paramIdx + 1)
              (collectedParams @ [Dynamic \<lparr>offset = off, len = l\<rparr>])
              (min endOfStaticCalldata off) mode = Inr (Some f)"
      then obtain off l where off: "tryParseOffset data (paramIdx * 32) = Inr (Some off)"
        and run: "decodeWellFormedTuple dec d data (paramIdx + 1)
              (collectedParams @ [Dynamic \<lparr>offset = off, len = l\<rparr>])
              (min endOfStaticCalldata off) mode = Inr (Some f)"
        by blast
      have "min endOfStaticCalldata off - (paramIdx + 1) * 32 < endOfStaticCalldata - paramIdx * 32"
        using lt by arith
      from less.hyps [OF this headInvariant_pointer [OF less.prems(1) lt off] run]
      show ?thesis .
    next
      assume run: "decodeWellFormedTuple dec d data (paramIdx + 1)
           (collectedParams @ [Resolved (Elem ''bytes32'')]) endOfStaticCalldata mode
           = Inr (Some f)"
      have "endOfStaticCalldata - (paramIdx + 1) * 32 < endOfStaticCalldata - paramIdx * 32"
        using lt by simp
      from less.hyps [OF this headInvariant_static [OF less.prems(1) lt] run]
      show ?thesis .
    qed
  qed
qed

lemma length_annotate: "length (annotate cs n) = length cs"
  by (induction cs n rule: annotate.induct) simp_all

lemma fst_annotate: "i < length cs \<Longrightarrow> fst (annotate cs n ! i) = cs ! i"
proof (induction cs n arbitrary: i rule: annotate.induct)
  case (1 j)
  then show ?case by simp
next
  case (2 t ps j)
  then show ?case by (cases i) simp_all
next
  case (3 p ps j)
  then show ?case by (cases i) simp_all
qed

lemma finishHead_inputs:
  assumes "finishHead dec d data collectedParams = Inr (Some f)"
  shows "length (inputs f) = length collectedParams \<and>
         (\<forall>i < length collectedParams. \<forall>t. collectedParams ! i = Resolved t \<longrightarrow> inputs f ! i = t)"
proof -
  let ?rs = "map (resolveParam dec d data (placeholdersOf collectedParams))
               (annotate collectedParams 0)"
  from assms obtain finalParams where seq: "sequenceE ?rs = Inr finalParams"
    and f: "inputs f = map the finalParams"
    by (auto simp: finishHead_def split: sum.splits if_splits)
  from sequenceE_length [OF seq] have len: "length finalParams = length collectedParams"
    by (simp add: length_annotate)
  have "inputs f ! i = t" if i: "i < length collectedParams" and t: "collectedParams ! i = Resolved t"
    for i t
  proof -
    from i have "i < length (annotate collectedParams 0)" by (simp add: length_annotate)
    with sequenceE_map_Inr [OF seq]
    have r: "resolveParam dec d data (placeholdersOf collectedParams)
               (annotate collectedParams 0 ! i) = Inr (finalParams ! i)" by simp
    from fst_annotate [OF i, of 0] t obtain j where "annotate collectedParams 0 ! i = (Resolved t, j)"
      by (cases "annotate collectedParams 0 ! i") simp
    with r have "finalParams ! i = Some t" by (simp add: resolveParam_def)
    with f i len show ?thesis by simp
  qed
  with f len show ?thesis by simp
qed

lemma chunkInputs_bytes:
  assumes "chunkInputs (Some k) ins = Some (Elem ''bytes'')"
  shows "0 < k \<and> length ins = k \<and> ins ! 0 = Elem ''bytes''"
proof -
  define n where "n = length ins div k"
  define chunks where "chunks = map (\<lambda>i. slice ins (i * n) ((i + 1) * n)) [0..<k]"
  have eq: "chunkInputs (Some k) ins =
      (if k = 0 \<or> length ins mod k \<noteq> 0 then None
       else if length (newSet (map (\<lambda>v. joinWith '','' (map format v)) chunks)) \<noteq> 1 then None
       else if length (hd chunks) = 1
            then (if hd (hd chunks) = Elem ''bytes'' then Some (hd (hd chunks))
                  else Some (Array (hd (hd chunks))))
            else Some (Array (tupleFrom (hd chunks))))"
    unfolding chunkInputs_def chunks_def n_def by (simp only: Let_def option.case)
  from assms have k: "0 < k" and m: "length ins mod k = 0"
    and one: "length (hd chunks) = 1" and first: "hd (hd chunks) = Elem ''bytes''"
    unfolding eq by (auto split: if_splits)
  from k have hd: "hd chunks = take n ins"
    by (simp add: chunks_def hd_map upt_conv_Cons slice_def)
  have "n \<le> length ins" unfolding n_def by (rule div_le_dividend)
  with one hd have n: "n = 1" by simp
  with m div_mult_mod_eq [of "length ins" k] have len: "length ins = k"
    unfolding n_def by simp
  from first hd n k len have "ins ! 0 = Elem ''bytes''"
    by (cases ins) simp_all
  with k len show ?thesis by simp
qed

lemma resolveDynamic_elements_not_elementary:
  assumes "len p = Some k" and "\<not> bytesLike k trailing t" and "32 * k < length t"
  shows "resolveDynamic dec d p trailing t \<noteq> Inr (Some (Elem s))"
proof (cases "sequenceE (map (\<lambda>paramIdx. tryParseOffset t (paramIdx * 32)) [0..<k])")
  case (Inl e)
  with assms have "resolveDynamic dec d p trailing t = Inl e"
    by (simp add: resolveDynamic.simps [of dec d p trailing t])
  then show ?thesis by simp
next
  case (Inr potentialOffsets)
  show ?thesis
  proof (cases "None \<in> set potentialOffsets")
    case True
    show ?thesis
      unfolding resolveDynamic_static_elements [OF assms Inr True]
      by (simp add: Let_def split: sum.splits option.splits)
  next
    case False
    show ?thesis
      unfolding resolveDynamic_dynamic_elements [OF assms Inr False]
      by (simp split: sum.splits option.splits)
  qed
qed

lemma resolveDynamic_bytes_bytesLike:
  assumes "len p = Some k"
    and "resolveDynamic dec d p trailing t = Inr (Some (Elem ''bytes''))"
  shows "bytesLike k trailing t"
proof (rule ccontr)
  assume nb: "\<not> bytesLike k trailing t"
  show False
  proof (cases "32 * k < length t")
    case True
    from resolveDynamic_elements_not_elementary [OF assms(1) nb True] assms(2)
    show False by simp
  next
    case False
    then have short: "length t \<le> 32 * k" by simp
    from assms(2) obtain fragment
      where run: "decodeWellFormedTuple dec (d + 1) t 0 [] (length t) None = Inr (Some fragment)"
        and chunk: "chunkInputs (Some k) (inputs fragment) = Some (Elem ''bytes'')"
      unfolding resolveDynamic_chunked [OF assms(1) nb short]
      by (auto split: sum.splits option.splits)
    from chunkInputs_bytes [OF chunk] have k: "0 < k" and n: "length (inputs fragment) = k"
      and first: "inputs fragment ! 0 = Elem ''bytes''"
      by simp_all
    from decodeWellFormedTuple_result [OF headInvariant_start run]
    obtain paramIdx collectedParams endOfStaticCalldata
      where inv: "headInvariant t paramIdx collectedParams endOfStaticCalldata"
        and fin: "finishHead dec (d + 1) t collectedParams = Inr (Some fragment)"
      by blast
    from finishHead_inputs [OF fin] n
    have len: "length collectedParams = k"
      and res: "\<forall>i < length collectedParams. \<forall>t. collectedParams ! i = Resolved t
                  \<longrightarrow> inputs fragment ! i = t"
      by simp_all
    from len k have ne: "0 < length collectedParams" by simp
    from inv have slots: "paramIdx = k" using len by (simp add: headInvariant_def)
    obtain x where x: "collectedParams ! 0 = Dynamic x"
    proof (cases "collectedParams ! 0")
      case (Resolved ty)
      from ne have "collectedParams ! 0 \<in> set collectedParams" by simp
      with Resolved inv have "ty = Elem ''bytes32''"
        by (simp add: headInvariant_def)
      moreover from res ne Resolved have "inputs fragment ! 0 = ty" by simp
      ultimately show ?thesis using first by simp
    next
      case (Dynamic x)
      then show ?thesis by (rule that)
    qed
    have "x \<in> set (placeholdersOf collectedParams)"
      using x ne by (cases collectedParams) simp_all
    with inv slots have "k * 32 \<le> offset x" and "offset x < length t"
      by (simp_all add: headInvariant_def)
    with short show False by simp
  qed
qed

section \<open>Properties of the inferencer\<close>

subsection \<open>The bytes-like test\<close>

text \<open>
  The words of the specification for the bytes-like criterion: the last \<open>n\<close> bytes of a word
  are zero; the word of the tail that holds byte \<open>i\<close> (cut short where the tail ends); and
  the three alternatives (1)-(3) of the criterion.
\<close>

definition lastBytesZero :: "nat \<Rightarrow> bytes \<Rightarrow> bool" where
  "lastBytesZero n w = (n \<le> length w \<and> (\<forall>b \<in> set (drop (length w - n) w). b = 0))"

definition wordContaining :: "bytes \<Rightarrow> nat \<Rightarrow> bytes" where
  "wordContaining t i = slice t (i div 32 * 32) (i div 32 * 32 + 32)"

definition spec_bytesCriterion :: "nat \<Rightarrow> bool \<Rightarrow> bytes \<Rightarrow> bool" where
  "spec_bytesCriterion k trailing t =
     ((k = 0 \<and> t = []) \<or>
      (k > 0 \<and> k mod 32 = 0 \<and> (trailing \<or> k = length t)) \<or>
      (k mod 32 \<noteq> 0 \<and> lastBytesZero (32 - k mod 32) (wordContaining t (k - 1))))"

definition exampleAlignedTail :: bytes where
  "exampleAlignedTail = replicate 32 1 @ replicate 32 0"

definition examplePaddedTail :: bytes where
  "examplePaddedTail = [104, 101, 108, 108, 111] @ replicate 27 0"

lemma le_length_takeWhile:
  "n \<le> length (takeWhile P xs) \<longleftrightarrow> n \<le> length xs \<and> (\<forall>x \<in> set (take n xs). P x)"
proof (induction xs arbitrary: n)
  case Nil
  then show ?case by simp
next
  case (Cons x xs)
  then show ?case by (cases n) auto
qed

lemma countTrailingZeros_ge: "n \<le> countTrailingZeros w \<longleftrightarrow> lastBytesZero n w"
proof -
  have "take n (rev w) = rev (drop (length w - n) w)"
    by (simp add: take_rev)
  then show ?thesis
    by (simp add: countTrailingZeros_def countLeadingZeros_takeWhile le_length_takeWhile
        lastBytesZero_def)
qed

lemma word_of_last_byte:
  assumes "k mod 32 \<noteq> 0"
  shows "(k - 1) div 32 = k div (32 :: nat)"
proof -
  define q r where "q = k div 32" and "r = k mod 32"
  have k: "k = r + q * 32" by (simp add: q_def r_def)
  have r: "0 < r" "r < 32" using assms by (simp_all add: r_def)
  with k have "k - 1 = (r - 1) + q * 32" by simp
  then have "(k - 1) div 32 = ((r - 1) + q * 32) div 32" by simp
  also have "\<dots> = q" using r by simp
  finally show ?thesis by (simp add: q_def)
qed

lemma bytesLike_aligned:
  assumes "k mod 32 = 0"
  shows "bytesLike k trailing t \<longleftrightarrow>
     (k = 0 \<and> t = []) \<or> (k > 0 \<and> (trailing \<or> k = length t)) \<or>
     (k > 0 \<and> lastBytesZero 32 (slice t k (k + 32)))"
proof -
  from assms have "32 dvd k" by (simp add: dvd_eq_mod_eq_0)
  then have lw: "k div 32 * 32 = k" by (rule dvd_div_mult_self)
  have "bytesLike k trailing t \<longleftrightarrow>
      (k = 0 \<and> length t = 0) \<or>
      (k > 0 \<and> ((trailing \<or> k = length t) \<or> lastBytesZero 32 (slice t k (k + 32))))"
    unfolding bytesLike_def Let_def lw countTrailingZeros_ge by (simp add: assms)
  then show ?thesis by blast
qed

lemma bytesLike_unaligned:
  assumes "k mod 32 \<noteq> 0"
  shows "bytesLike k trailing t \<longleftrightarrow>
     lastBytesZero (32 - k mod 32) (wordContaining t (k - 1))"
proof -
  from assms have "k > 0" by (cases k) auto
  then show ?thesis
    unfolding bytesLike_def Let_def countTrailingZeros_ge wordContaining_def
      word_of_last_byte [OF assms]
    using assms by simp
qed

lemma bytesLike_iff:
  "bytesLike k trailing t \<longleftrightarrow>
     spec_bytesCriterion k trailing t \<or>
     (k > 0 \<and> k mod 32 = 0 \<and> lastBytesZero 32 (slice t k (k + 32)))"
proof (cases "k mod 32 = 0")
  case True
  show ?thesis
    unfolding bytesLike_aligned [OF True] spec_bytesCriterion_def using True by blast
next
  case False
  show ?thesis
    unfolding bytesLike_unaligned [OF False] spec_bytesCriterion_def using False by auto
qed

lemma resolveDynamic_bytesLike:
  "len p = Some k \<Longrightarrow> bytesLike k trailing t \<Longrightarrow>
   resolveDynamic dec d p trailing t = Inr (Some (Elem ''bytes''))"
  by (simp add: resolveDynamic.simps [of dec d p trailing t])

text \<open>
  A placeholder of length 32 that is not the trailing one, with a tail of 64 bytes whose
  second word is zero: the code takes it for \<^verbatim>\<open>bytes\<close>, and none of (1)-(3) holds.
\<close>

theorem bytesLike_counterexample:
  "bytesLike 32 False exampleAlignedTail \<and> \<not> spec_bytesCriterion 32 False exampleAlignedTail"
  by code_simp

text \<open>
  Claim C2, as the code has it. During tail resolution a placeholder with length \<open>k\<close> and tail
  \<open>t\<close> is classified as \<^verbatim>\<open>bytes\<close> if and only if (1) \<open>k = 0\<close> and \<open>t\<close> is empty, or (2)
  \<open>k > 0\<close>, \<open>k mod 32 = 0\<close> and the placeholder is the trailing one or \<open>k = length t\<close>, or (3)
  \<open>k mod 32 \<noteq> 0\<close> and the last \<open>32 - k mod 32\<close> bytes of the word of \<open>t\<close> holding byte \<open>k - 1\<close>
  are zero, or (4) \<open>k > 0\<close>, \<open>k mod 32 = 0\<close> and the 32 bytes of \<open>t\<close> that follow its first \<open>k\<close>
  bytes are all zero. A placeholder for which none of (1)-(4) holds is not classified as
  \<^verbatim>\<open>bytes\<close>, whatever the decoder: the chunking of lines 328-358 cannot return \<^verbatim>\<open>bytes\<close> for
  it, since its tail of at most \<open>32 * k\<close> bytes has no room for a head of \<open>k\<close> slots and the
  data of a placeholder.
\<close>

theorem resolveDynamic_bytes_iff:
  assumes "len p = Some k"
  shows "resolveDynamic dec d p trailing t = Inr (Some (Elem ''bytes'')) \<longleftrightarrow>
      (k = 0 \<and> t = []) \<or>
      (k > 0 \<and> k mod 32 = 0 \<and> (trailing \<or> k = length t)) \<or>
      (k mod 32 \<noteq> 0 \<and> lastBytesZero (32 - k mod 32) (wordContaining t (k - 1))) \<or>
      (k > 0 \<and> k mod 32 = 0 \<and> lastBytesZero 32 (slice t k (k + 32)))"
proof -
  have "resolveDynamic dec d p trailing t = Inr (Some (Elem ''bytes'')) \<longleftrightarrow> bytesLike k trailing t"
    using resolveDynamic_bytesLike [OF assms] resolveDynamic_bytes_bytesLike [OF assms] by blast
  then show ?thesis
    unfolding bytesLike_iff [of k trailing t] spec_bytesCriterion_def by (simp only: disj_assoc)
qed

theorem resolveDynamic_bytes_iff_witness:
  "len \<lparr>offset = 32, len = Some 5\<rparr> = Some 5 \<and>
   lastBytesZero (32 - 5 mod 32) (wordContaining examplePaddedTail (5 - 1)) \<and>
   resolveDynamic (\<lambda>types buf. None) 0 \<lparr>offset = 32, len = Some 5\<rparr> False examplePaddedTail
     = Inr (Some (Elem ''bytes''))"
proof -
  have w: "lastBytesZero (32 - 5 mod 32) (wordContaining examplePaddedTail (5 - 1))"
    by code_simp
  with resolveDynamic_bytes_iff [of "\<lparr>offset = 32, len = Some 5\<rparr>" 5 "\<lambda>types buf. None" 0
      False examplePaddedTail]
  show ?thesis by simp
qed

subsection \<open>The driver at the boundary\<close>

lemma decodeWellFormedTuple_empty:
  "decodeWellFormedTuple dec d [] 0 [] 0 None =
     (if dec [] [] \<noteq> None then Inr (Some \<lparr>name = ''guessed'', inputs = []\<rparr>) else Inr None)"
  by (simp add: decodeWellFormedTuple.simps [of dec d "[]" 0 "[]" 0 None] testFragment_def)

lemma guessFragment_selector_only:
  assumes "0 < length calldata" and "length calldata \<le> 4" and "dec [] [] \<noteq> None"
  shows "guessFragment dec utf8 calldata =
           Inr (Some \<lparr>name = ''guessed_'' @ hexOf calldata, inputs = []\<rparr>)"
proof -
  from assms(2) have args: "slice calldata 4 (length calldata) = []"
    and sel: "slice calldata 0 4 = calldata"
    by (simp_all add: slice_def)
  from assms(3) obtain vals where vals: "dec [] [] = Some vals" by auto
  have "prettyTypes utf8 [] vals = Inr []" by (simp add: prettyTypes_def)
  with assms(1) vals show ?thesis
    by (simp add: guessFragment_def wellFormedParse_def args sel decodeWellFormedTuple_empty)
qed

text \<open>
  Claim C8. The driver returns none on empty calldata, and on calldata of exactly 4 bytes
  it returns a fragment with zero parameters, provided the decoder accepts the empty type
  list on the empty buffer.
\<close>

theorem guessFragment_boundary:
  "guessFragment dec utf8 [] = Inr None \<and>
   (length calldata = 4 \<and> dec [] [] \<noteq> None \<longrightarrow>
      guessFragment dec utf8 calldata =
        Inr (Some \<lparr>name = ''guessed_'' @ hexOf calldata, inputs = []\<rparr>))"
proof (intro conjI impI)
  show "guessFragment dec utf8 [] = Inr None"
    by (simp add: guessFragment_def)
next
  assume "length calldata = 4 \<and> dec [] [] \<noteq> None"
  then have "0 < length calldata" and "length calldata \<le> 4" and "dec [] [] \<noteq> None"
    by simp_all
  then show "guessFragment dec utf8 calldata =
      Inr (Some \<lparr>name = ''guessed_'' @ hexOf calldata, inputs = []\<rparr>)"
    by (rule guessFragment_selector_only)
qed

theorem guessFragment_boundary_witness:
  "length [169, 5, 156, 187 :: byte] = 4 \<and> abiDecode [] [] \<noteq> None \<and>
   guessFragment abiDecode asciiOnly [169, 5, 156, 187] =
     Inr (Some \<lparr>name = ''guessed_a9059cbb'', inputs = []\<rparr>)"
proof -
  have dec: "abiDecode [] [] \<noteq> None" by (simp add: abiDecode_def)
  have hex: "hexOf [169, 5, 156, 187] = ''a9059cbb''" by (simp add: hexOf_def hexDigit_def)
  from guessFragment_boundary [of abiDecode asciiOnly "[169, 5, 156, 187]"] dec hex
  show ?thesis by simp
qed

text \<open>
  Claim C10. On non-empty calldata of fewer than 4 bytes the whole input is the selector,
  the argument region is empty, and the driver returns a fragment with zero parameters
  (the decoder accepting the empty type list on the empty buffer).
\<close>

theorem guessFragment_short_calldata:
  assumes "0 < length calldata" and "length calldata < 4" and "dec [] [] \<noteq> None"
  shows "slice calldata 0 4 = calldata \<and> slice calldata 4 (length calldata) = [] \<and>
         guessFragment dec utf8 calldata =
           Inr (Some \<lparr>name = ''guessed_'' @ hexOf calldata, inputs = []\<rparr>)"
  using assms guessFragment_selector_only [of calldata dec utf8]
  by (simp add: slice_def)

theorem guessFragment_short_calldata_witness:
  "guessFragment abiDecode asciiOnly [169, 5] =
     Inr (Some \<lparr>name = ''guessed_a905'', inputs = []\<rparr>)"
proof -
  have dec: "abiDecode [] [] \<noteq> None" by (simp add: abiDecode_def)
  have hex: "hexOf [169, 5] = ''a905''" by (simp add: hexOf_def hexDigit_def)
  from guessFragment_short_calldata [of "[169, 5]" abiDecode asciiOnly] dec hex
  show ?thesis by simp
qed

end
